theory Spec2Isabelle
  imports Main
begin

section \<open>CallerID: the call stores, the packet decoder and the text composer\<close>

text \<open>
  A shallow embedding of \<^verbatim>\<open>CallerID.ino\<close>. The global variables of the sketch are the
  fields of the record \<open>state\<close>; every routine takes the state and returns the new one.
  Bytes are \<open>char\<close>, C strings and byte arrays are \<open>string\<close> (all bytes of the array, the
  terminating zero included). \<open>short int\<close> and \<open>int\<close> variables are \<open>int\<close>; the increments
  that can leave the range of a \<open>short int\<close> wrap around through \<open>short_int\<close>.
  A routine that indexes an array returns \<open>None\<close> where the index is outside the array
  (undefined behaviour in C) or where its loop never exits. The liquid crystal display,
  the serial echo and the delays are outputs only and are left out.
\<close>

subsection \<open>Constants\<close>

definition MAX_LINES :: int where
  "MAX_LINES = 8"

definition MAX_CALLS :: int where
  "MAX_CALLS = 200"

definition MAX_PACKET :: nat where
  "MAX_PACKET = 255"

definition EEPROM_SIZE :: int where
  "EEPROM_SIZE = 4096"

definition WIFI_NAMELENGTH :: nat where
  "WIFI_NAMELENGTH = 31"

definition LINE_NAMELENGTH :: nat where
  "LINE_NAMELENGTH = 15"

text \<open>
  The sizes of the two structures on the ESP8266 (32-bit, \<open>short int\<close> of two bytes
  aligned to two): the header is 8 + 1 + 3 + 32 + 32 + 8 * 16 + 3 * 2 bytes, a call
  record is 1 + 1 (padding) + 2 + 3 * 16 bytes.
\<close>

definition sizeof_eeprom_hdr_t :: int where
  "sizeof_eeprom_hdr_t = 210"

definition sizeof_call_record_t :: int where
  "sizeof_call_record_t = 52"

definition NUM_EEPROM_CALLS :: int where
  "NUM_EEPROM_CALLS = (EEPROM_SIZE - sizeof_eeprom_hdr_t) div sizeof_call_record_t"

definition NUL :: char where
  "NUL = CHR 0x00"

definition short_int :: "int \<Rightarrow> int" where
  \<comment> \<open>conversion of an \<open>int\<close> to a 16-bit \<open>short int\<close>\<close>
  "short_int x = (x + 32768) mod 65536 - 32768"

definition unsigned_int :: "int \<Rightarrow> int" where
  \<comment> \<open>conversion to \<open>size_t\<close>, which a comparison with \<open>NUM_EEPROM_CALLS\<close> applies\<close>
  "unsigned_int x = x mod 4294967296"

subsection \<open>Data\<close>

record call_record_t =
  rec_phoneline :: nat
  rec_seconds :: int
  rec_datetime :: string
  rec_phonenum :: string
  rec_callername :: string

record eeprom_hdr_t =
  hdr_id :: string
  hdr_options :: nat
  hdr_reserved :: string
  hdr_ssid :: string
  hdr_password :: string
  hdr_line_names :: "string list"
  hdr_num_calls :: int
  hdr_oldest :: int
  hdr_newest :: int

text \<open>
  The \<open>EEPROM\<close> object of the ESP8266 library: \<open>EEPROM.write\<close> stores into an image of
  the flash block in memory, \<open>EEPROM.commit\<close> writes the image to the flash. The block is
  kept at the granularity the sketch uses it: the header at address 0 and, behind it, the
  array of \<open>NUM_EEPROM_CALLS\<close> call records. \<open>commits\<close> counts the commits.
\<close>

record EEPROM_t =
  image_hdr :: eeprom_hdr_t
  image_calls :: "call_record_t list"
  flash_hdr :: eeprom_hdr_t
  flash_calls :: "call_record_t list"
  commits :: nat

record state =
  packet :: string
  pktptr :: nat
  pktlen :: int
  backlight_on :: bool
  unitnum :: string
  serialnum :: string
  phoneline :: string
  duration :: string
  atype :: string
  datetime :: string
  phonenum :: string
  callername :: string
  calls :: "call_record_t list"
  num_calls :: int
  oldest :: int
  newest :: int
  displayed :: int
  displayed_age :: int
  eeprom_hdr :: eeprom_hdr_t
  EEPROM :: EEPROM_t
  badpacket_count :: int
  badpacket_length :: int
  badpacket_type :: int
  badpacket_data :: string

text \<open>
  The static initial values of the global variables (C zero-initialises them;
  \<open>displayed_age\<close> starts at 1), with a header and an \<open>EEPROM\<close> object that hold zeros.
\<close>

definition zero_call :: call_record_t where
  "zero_call =
     \<lparr>rec_phoneline = 0, rec_seconds = 0, rec_datetime = replicate 16 NUL,
      rec_phonenum = replicate 16 NUL, rec_callername = replicate 16 NUL\<rparr>"

definition zero_hdr :: eeprom_hdr_t where
  "zero_hdr =
     \<lparr>hdr_id = replicate 8 NUL, hdr_options = 0, hdr_reserved = replicate 3 NUL,
      hdr_ssid = replicate (WIFI_NAMELENGTH + 1) NUL,
      hdr_password = replicate (WIFI_NAMELENGTH + 1) NUL,
      hdr_line_names = replicate (nat MAX_LINES) (replicate (LINE_NAMELENGTH + 1) NUL),
      hdr_num_calls = 0, hdr_oldest = 0, hdr_newest = 0\<rparr>"

definition power_on :: state where
  "power_on =
     \<lparr>packet = replicate MAX_PACKET NUL, pktptr = 0, pktlen = 0, backlight_on = False,
      unitnum = replicate 7 NUL, serialnum = replicate 7 NUL, phoneline = replicate 3 NUL,
      duration = replicate 5 NUL, atype = replicate 2 NUL, datetime = replicate 16 NUL,
      phonenum = replicate 16 NUL, callername = replicate 16 NUL,
      calls = replicate (nat MAX_CALLS) zero_call,
      num_calls = 0, oldest = 0, newest = 0, displayed = 0, displayed_age = 1,
      eeprom_hdr = zero_hdr,
      EEPROM = \<lparr>image_hdr = zero_hdr,
                image_calls = replicate (nat NUM_EEPROM_CALLS) zero_call,
                flash_hdr = zero_hdr,
                flash_calls = replicate (nat NUM_EEPROM_CALLS) zero_call,
                commits = 0\<rparr>,
      badpacket_count = 0, badpacket_length = 0, badpacket_type = 0,
      badpacket_data = replicate MAX_PACKET NUL\<rparr>"


subsection \<open>The C library's \<open>sscanf\<close> with one \<open>%d\<close> directive\<close>

text \<open>
  \<open>sscanf(str, "%d", &n)\<close> and \<open>sscanf(str, "%hd", &n)\<close> as the C standard defines them:
  the input is the C string in the array (the bytes before the first zero); white space
  is skipped, an optional sign and then decimal digits are read. The call returns 1 and
  stores the number when there is at least one digit (\<open>Some\<close>), and returns 0 or
  \<open>EOF\<close> and stores nothing otherwise (\<open>None\<close>). The arrays scanned here hold at most four
  characters, so the number fits both an \<open>int\<close> and a \<open>short int\<close>.
\<close>

definition isspace :: "char \<Rightarrow> bool" where
  "isspace c = (c = CHR '' '' \<or> (9 \<le> (of_char c :: nat) \<and> (of_char c :: nat) \<le> 13))"

definition isdigit :: "char \<Rightarrow> bool" where
  "isdigit c = (48 \<le> (of_char c :: nat) \<and> (of_char c :: nat) \<le> 57)"

definition c_str :: "string \<Rightarrow> string" where
  "c_str buf = takeWhile (\<lambda>c. c \<noteq> NUL) buf"

fun decimal :: "int \<Rightarrow> string \<Rightarrow> int" where
  "decimal acc [] = acc"
| "decimal acc (c # cs) = decimal (acc * 10 + (int (of_char c) - 48)) cs"

definition scan_int :: "string \<Rightarrow> int option" where
  "scan_int cs =
     (let ds = takeWhile isdigit cs
      in if ds = [] then None else Some (decimal 0 ds))"

definition sscanf_d :: "string \<Rightarrow> int option" where
  "sscanf_d buf =
     (case dropWhile isspace (c_str buf) of
        [] \<Rightarrow> None
      | c # cs \<Rightarrow>
          if c = CHR ''-'' then map_option uminus (scan_int cs)
          else if c = CHR ''+'' then scan_int cs
          else scan_int (c # cs))"

subsection \<open>Parsing routines for the packets\<close>

text \<open>
  \<open>match\<close> compares a literal with the packet bytes at \<open>pktptr\<close>; on the first byte that
  differs it puts \<open>pktptr\<close> back where this literal began. It does not look at \<open>pktlen\<close>.
  \<open>match_loop\<close> is its loop: \<open>Some (Some p)\<close> is a match that ends at \<open>p\<close>,
  \<open>Some None\<close> a mismatch, and \<open>None\<close> a read outside the array \<open>packet\<close>.
\<close>

fun match_loop :: "string \<Rightarrow> string \<Rightarrow> nat \<Rightarrow> nat option option" where
  "match_loop [] pkt p = Some (Some p)"
| "match_loop (c # literal) pkt p =
     (if p < length pkt
      then (if c \<noteq> pkt ! p then Some None else match_loop literal pkt (Suc p))
      else None)"

definition match :: "string \<Rightarrow> state \<Rightarrow> (bool \<times> state) option" where
  "match literal s =
     (case match_loop literal (packet s) (pktptr s) of
        None \<Rightarrow> None
      | Some None \<Rightarrow> Some (False, s)
      | Some (Some p) \<Rightarrow> Some (True, s\<lparr>pktptr := p\<rparr>))"

text \<open>
  \<open>copy\<close> copies a field of \<open>len\<close> bytes: a byte of the packet while \<open>pktptr\<close> is before
  \<open>packet + pktlen\<close>, a zero byte after that. \<open>copy_loop\<close> returns the bytes stored at
  \<open>dst\<close> and the new \<open>pktptr\<close>. The destination is one of the eight field arrays, named
  by a \<open>dst_array\<close>; a copy writes the first \<open>len\<close> bytes of the array and leaves the rest.
\<close>

fun copy_loop :: "nat \<Rightarrow> string \<Rightarrow> int \<Rightarrow> nat \<Rightarrow> (string \<times> nat) option" where
  "copy_loop 0 pkt plen p = Some ([], p)"
| "copy_loop (Suc len) pkt plen p =
     (if int p < plen
      then (if p < length pkt
            then map_option (\<lambda>(d, p'). (pkt ! p # d, p')) (copy_loop len pkt plen (Suc p))
            else None)
      else map_option (\<lambda>(d, p'). (NUL # d, p')) (copy_loop len pkt plen p))"

datatype dst_array =
  Unitnum | Serialnum | Phoneline | Duration | Atype | Datetime | Phonenum | Callername

fun get_field :: "dst_array \<Rightarrow> state \<Rightarrow> string" where
  "get_field Unitnum s = unitnum s"
| "get_field Serialnum s = serialnum s"
| "get_field Phoneline s = phoneline s"
| "get_field Duration s = duration s"
| "get_field Atype s = atype s"
| "get_field Datetime s = datetime s"
| "get_field Phonenum s = phonenum s"
| "get_field Callername s = callername s"

fun set_field :: "dst_array \<Rightarrow> string \<Rightarrow> state \<Rightarrow> state" where
  "set_field Unitnum v s = s\<lparr>unitnum := v\<rparr>"
| "set_field Serialnum v s = s\<lparr>serialnum := v\<rparr>"
| "set_field Phoneline v s = s\<lparr>phoneline := v\<rparr>"
| "set_field Duration v s = s\<lparr>duration := v\<rparr>"
| "set_field Atype v s = s\<lparr>atype := v\<rparr>"
| "set_field Datetime v s = s\<lparr>datetime := v\<rparr>"
| "set_field Phonenum v s = s\<lparr>phonenum := v\<rparr>"
| "set_field Callername v s = s\<lparr>callername := v\<rparr>"

definition copy :: "dst_array \<Rightarrow> nat \<Rightarrow> state \<Rightarrow> (bool \<times> state) option" where
  "copy dst len s =
     (case copy_loop len (packet s) (pktlen s) (pktptr s) of
        None \<Rightarrow> None
      | Some (d, p) \<Rightarrow>
          Some (True, set_field dst (d @ drop len (get_field dst s)) (s\<lparr>pktptr := p\<rparr>)))"

text \<open>
  \<open>parse_phoneline\<close> converts the text in the array \<open>phoneline\<close>; \<open>line_index\<close> is
  its computation on that text. \<open>(byte) linenum - 1\<close> casts first and subtracts then, and
  the result is returned as a byte.
\<close>

definition line_index :: "string \<Rightarrow> nat" where
  "line_index text =
     (case sscanf_d text of
        Some linenum \<Rightarrow>
          if linenum \<ge> 1 \<and> linenum \<le> MAX_LINES
          then nat ((linenum mod 256 - 1) mod 256)
          else nat (MAX_LINES - 1)
      | None \<Rightarrow> nat (MAX_LINES - 1))"

definition parse_phoneline :: "state \<Rightarrow> nat" where
  "parse_phoneline s = line_index (phoneline s)"

subsection \<open>The call list in memory\<close>

definition in_bounds :: "int \<Rightarrow> 'a list \<Rightarrow> bool" where
  \<comment> \<open>the index is inside the array\<close>
  "in_bounds i xs = (0 \<le> i \<and> nat i < length xs)"

definition add_call :: "state \<Rightarrow> state option" where
  "add_call s =
     (let s1 =
        (if num_calls s = 0 then s\<lparr>num_calls := 1\<rparr>
         else
           (let s2 = s\<lparr>newest := short_int (newest s + 1)\<rparr>;
                s3 = (if newest s2 \<ge> MAX_CALLS then s2\<lparr>newest := 0\<rparr> else s2)
            in if num_calls s3 \<ge> MAX_CALLS
               then (let s4 = s3\<lparr>oldest := short_int (oldest s3 + 1)\<rparr>
                     in if oldest s4 \<ge> MAX_CALLS then s4\<lparr>oldest := 0\<rparr> else s4)
               else s3\<lparr>num_calls := num_calls s3 + 1\<rparr>))
      in if in_bounds (newest s1) (calls s1)
         then Some (s1\<lparr>calls := (calls s1)[nat (newest s1) :=
                 \<lparr>rec_phoneline = parse_phoneline s1, rec_seconds = 0,
                  rec_datetime = datetime s1, rec_phonenum = phonenum s1,
                  rec_callername = callername s1\<rparr>]\<rparr>)
         else None)"

text \<open>
  \<open>display_call\<close> prints the record \<open>calls[ndx]\<close>; of the state it changes
  \<open>displayed\<close> and \<open>displayed_age\<close>.
\<close>

definition display_call :: "int \<Rightarrow> state \<Rightarrow> state option" where
  "display_call ndx s =
     (if in_bounds ndx (calls s)
      then Some (s\<lparr>displayed := ndx,
                   displayed_age := (if ndx = newest s then 1 else displayed_age s)\<rparr>)
      else None)"

definition show_newest_call :: "state \<Rightarrow> state option" where
  "show_newest_call s = (if num_calls s > 0 then display_call (newest s) s else Some s)"

text \<open>
  The \<open>while (1)\<close> loop of \<open>update_duration\<close>, from the index \<open>ndx\<close>. It has no bound
  of its own: it ends at a record of the phone line or at \<open>oldest\<close>.
\<close>

partial_function (option) scan_calls :: "int \<Rightarrow> nat \<Rightarrow> int \<Rightarrow> state \<Rightarrow> state option" where
  "scan_calls ndx line seconds s =
     (if \<not> in_bounds ndx (calls s) then None
      else if rec_phoneline (calls s ! nat ndx) = line
      then (let s1 = s\<lparr>calls := (calls s)[nat ndx := (calls s ! nat ndx)\<lparr>rec_seconds := seconds\<rparr>]\<rparr>
            in if displayed s1 = ndx then display_call ndx s1 else Some s1)
      else if ndx = oldest s then Some s
      else scan_calls (if ndx - 1 < 0 then MAX_CALLS - 1 else ndx - 1) line seconds s)"

definition update_duration :: "state \<Rightarrow> state option" where
  "update_duration s =
     (case sscanf_d (duration s) of
        None \<Rightarrow> Some s
      | Some seconds \<Rightarrow>
          if num_calls s > 0
          then scan_calls (newest s) (parse_phoneline s) seconds s
          else Some s)"

subsection \<open>The archive in the flash memory\<close>

text \<open>
  \<open>eeprom_write\<close> is called on the header (address 0) and on one call record (address
  \<open>sizeof(struct eeprom_hdr_t) + ndx * sizeof(struct call_record_t)\<close>): the two
  functions below. A record index outside the array of the block is not modelled
  (\<open>None\<close>).
\<close>

definition eeprom_write_hdr :: "state \<Rightarrow> state" where
  "eeprom_write_hdr s = s\<lparr>EEPROM := (EEPROM s)\<lparr>image_hdr := eeprom_hdr s\<rparr>\<rparr>"

definition eeprom_write_call :: "int \<Rightarrow> call_record_t \<Rightarrow> state \<Rightarrow> state option" where
  "eeprom_write_call ndx r s =
     (if in_bounds ndx (image_calls (EEPROM s))
      then Some (s\<lparr>EEPROM := (EEPROM s)\<lparr>image_calls := (image_calls (EEPROM s))[nat ndx := r]\<rparr>\<rparr>)
      else None)"

definition EEPROM_commit :: "state \<Rightarrow> state" where
  "EEPROM_commit s =
     s\<lparr>EEPROM := (EEPROM s)\<lparr>flash_hdr := image_hdr (EEPROM s),
                              flash_calls := image_calls (EEPROM s),
                              commits := Suc (commits (EEPROM s))\<rparr>\<rparr>"

definition eeprom_add_call :: "state \<Rightarrow> state option" where
  "eeprom_add_call s =
     (let h = eeprom_hdr s;
          h1 =
            (if hdr_num_calls h = 0 then h\<lparr>hdr_num_calls := 1\<rparr>
             else
               (let h2 = h\<lparr>hdr_newest := short_int (hdr_newest h + 1)\<rparr>;
                    h3 = (if unsigned_int (hdr_newest h2) \<ge> NUM_EEPROM_CALLS
                          then h2\<lparr>hdr_newest := 0\<rparr> else h2)
                in if unsigned_int (hdr_num_calls h3) \<ge> NUM_EEPROM_CALLS
                   then (let h4 = h3\<lparr>hdr_oldest := short_int (hdr_oldest h3 + 1)\<rparr>
                         in if unsigned_int (hdr_oldest h4) \<ge> NUM_EEPROM_CALLS
                            then h4\<lparr>hdr_oldest := 0\<rparr> else h4)
                   else h3\<lparr>hdr_num_calls := hdr_num_calls h3 + 1\<rparr>));
          s1 = eeprom_write_hdr (s\<lparr>eeprom_hdr := h1\<rparr>)
      in if in_bounds (newest s1) (calls s1)
         then (case eeprom_write_call (hdr_newest h1) (calls s1 ! nat (newest s1)) s1 of
                 None \<Rightarrow> None
               | Some s2 \<Rightarrow> Some (EEPROM_commit s2))
         else None)"

subsection \<open>Bad packets\<close>

definition badpacket :: "int \<Rightarrow> state \<Rightarrow> state" where
  "badpacket type s =
     s\<lparr>badpacket_count := badpacket_count s + 1,
       badpacket_length := pktlen s,
       badpacket_type := type,
       badpacket_data := take (nat (pktlen s)) (packet s) @ drop (nat (pktlen s)) (badpacket_data s)\<rparr>"

subsection \<open>The main loop: one packet\<close>

text \<open>
  The conditions of the \<open>if\<close> chain of \<open>loop\<close> are chains of \<open>&&\<close> and \<open>||\<close> over
  calls that move \<open>pktptr\<close> and fill the field arrays. A condition is a function from the
  state to its truth value and the state it leaves; \<open>and_also\<close> and \<open>or_else\<close> evaluate
  the right operand only where C does.
\<close>

type_synonym cond = "state \<Rightarrow> (bool \<times> state) option"

definition test :: "(state \<Rightarrow> bool) \<Rightarrow> cond" where
  "test b s = Some (b s, s)"

definition negate :: "cond \<Rightarrow> cond" where
  "negate a s = (case a s of None \<Rightarrow> None | Some (r, s') \<Rightarrow> Some (\<not> r, s'))"

definition and_also :: "cond \<Rightarrow> cond \<Rightarrow> cond" where
  "and_also a b s =
     (case a s of None \<Rightarrow> None | Some (r, s') \<Rightarrow> if r then b s' else Some (False, s'))"

definition or_else :: "cond \<Rightarrow> cond \<Rightarrow> cond" where
  "or_else a b s =
     (case a s of None \<Rightarrow> None | Some (r, s') \<Rightarrow> if r then Some (True, s') else b s')"

definition bad_preamble :: cond where
  "bad_preamble =
     or_else (test (\<lambda>s. pktlen s < 52))
    (or_else (negate (match ''^^<U>''))
    (or_else (negate (copy Unitnum 6))
    (or_else (negate (match ''<S>''))
    (or_else (negate (copy Serialnum 6))
    (or_else (negate (match ''$''))
    (or_else (negate (copy Phoneline 2))
             (negate (match '' ''))))))))"

definition boot_notice :: cond where
  "boot_notice = and_also (test (\<lambda>s. pktlen s = 52)) (match ''V'')"

definition start_call :: cond where
  "start_call =
     and_also (test (\<lambda>s. pktlen s \<ge> 70))
    (and_also (test (\<lambda>s. pktlen s \<le> 83))
    (and_also (match ''I S '')
    (and_also (copy Duration 4)
    (and_also (or_else (match '' G '') (match '' B ''))
    (and_also (match ''A'')
    (and_also (copy Atype 1)
    (and_also (match '' '')
    (and_also (copy Datetime 15)
    (and_also (copy Phonenum 15)
              (copy Callername 15))))))))))"

definition end_call :: cond where
  "end_call =
     and_also (test (\<lambda>s. pktlen s \<ge> 70))
    (and_also (test (\<lambda>s. pktlen s \<le> 83))
    (and_also (match ''I E '')
              (copy Duration 4)))"

text \<open>The branch of the \<open>if\<close> chain that a packet takes, and the state the conditions leave.\<close>

datatype branch = Malformed_preamble | Boot_notice | Start_call | End_call | Unhandled

definition select_branch :: "state \<Rightarrow> (branch \<times> state) option" where
  "select_branch s =
     (case bad_preamble s of
        None \<Rightarrow> None
      | Some (r1, s1) \<Rightarrow>
          if r1 then Some (Malformed_preamble, s1)
          else (case boot_notice s1 of
                  None \<Rightarrow> None
                | Some (r2, s2) \<Rightarrow>
                    if r2 then Some (Boot_notice, s2)
                    else (case start_call s2 of
                            None \<Rightarrow> None
                          | Some (r3, s3) \<Rightarrow>
                              if r3 then Some (Start_call, s3)
                              else (case end_call s3 of
                                      None \<Rightarrow> None
                                    | Some (r4, s4) \<Rightarrow>
                                        if r4 then Some (End_call, s4)
                                        else Some (Unhandled, s4)))))"

definition run_branch :: "branch \<Rightarrow> state \<Rightarrow> state option" where
  "run_branch b s =
     (case b of
        Malformed_preamble \<Rightarrow> Some (badpacket 1 s)
      | Boot_notice \<Rightarrow> show_newest_call s
      | Start_call \<Rightarrow>
          Option.bind (add_call s) (\<lambda>s1. Option.bind (eeprom_add_call s1) show_newest_call)
      | End_call \<Rightarrow> update_duration s
      | Unhandled \<Rightarrow> Some (badpacket 2 s))"

definition process_packet :: "state \<Rightarrow> state option" where
  "process_packet s =
     (case select_branch s of None \<Rightarrow> None | Some (b, s1) \<Rightarrow> run_branch b s1)"

text \<open>
  \<open>read_packet\<close> with the test calls compiled out: \<open>dgram\<close> is the payload of the UDP
  datagram that is pending, empty when there is none; \<open>udp.read\<close> stores at most
  \<open>MAX_PACKET\<close> bytes of it. \<open>received\<close> is the state in which the \<open>if\<close> chain
  starts, and \<open>loop_packet\<close> the part of \<open>loop\<close> between the reading of a packet and
  the backlight timeout.
\<close>

definition read_packet :: "string \<Rightarrow> state \<Rightarrow> int \<times> state" where
  "read_packet dgram s =
     (if dgram = [] then (0, s)
      else (let n = min (length dgram) MAX_PACKET
            in (int n, s\<lparr>packet := take n dgram @ drop n (packet s)\<rparr>)))"

definition received :: "string \<Rightarrow> state \<Rightarrow> state" where
  "received dgram s =
     (let (n, s1) = read_packet dgram s
      in s1\<lparr>pktlen := n, backlight_on := True, pktptr := 0\<rparr>)"

definition loop_packet :: "string \<Rightarrow> state \<Rightarrow> state option" where
  "loop_packet dgram s =
     (let (n, s1) = read_packet dgram s
      in if n \<noteq> 0 then process_packet (received dgram s) else Some (s1\<lparr>pktlen := n\<rparr>))"

fun loop_packets :: "string list \<Rightarrow> state \<Rightarrow> state option" where
  "loop_packets [] s = Some s"
| "loop_packets (dgram # dgrams) s =
     (case loop_packet dgram s of None \<Rightarrow> None | Some s' \<Rightarrow> loop_packets dgrams s')"

subsection \<open>Input of a configuration string\<close>

text \<open>
  \<open>input_string\<close> edits the array \<open>dst\<close> with the global variables \<open>input_col\<close> and
  \<open>glyph\<close>: the record \<open>composer\<close>. It polls the two switches and the serial port in
  loops that spin until one of them has something. What they deliver is the list of
  \<open>input\<close>s in the order in which the code meets them: \<open>Rx ch\<close> is a byte \<open>ch\<close> that
  the serial port holds (\<open>Serial.available() > 0\<close>), \<open>Accept\<close> a push of the accept
  switch, \<open>Change n\<close> a push of the change switch that is held for \<open>n\<close> repeats of the
  fast forward. The list starts after the purge of the serial buffer at the entry of the
  routine. A loop that meets the end of the list spins for ever: \<open>None\<close>, which is also
  the result of a store outside \<open>dst\<close>.
\<close>

record composer =
  dst :: string
  input_col :: int
  glyph :: int

datatype input = Rx char | Accept | Change nat

definition alphabet :: string where
  "alphabet =
     ''ABCDEFGHIJKLMNOPQRSTUVWXYZabcdefghijklmnopqrstuvwxyz0123456789 '' @ [CHR 0x27]
     @ ''!$@^'' @ [CHR 0x60] @ '',|%;.~()/'' @ [CHR 0x7B] @ ''}:?[]=-+_#!'' @ [NUL]"

definition next_glyph :: "composer \<Rightarrow> char \<times> composer" where
  \<comment> \<open>\<open>sizeof(alphabet)\<close> is a \<open>size_t\<close>: the comparison converts \<open>glyph\<close> to unsigned\<close>
  "next_glyph c =
     (let g = glyph c + 1;
          g' = (if unsigned_int g \<ge> int (length alphabet) then 0 else g)
      in (alphabet ! nat g', c\<lparr>glyph := g'\<rparr>))"

definition poke :: "int \<Rightarrow> char \<Rightarrow> composer \<Rightarrow> composer option" where
  \<comment> \<open>\<open>dst[i] = ch\<close>\<close>
  "poke i ch c = (if in_bounds i (dst c) then Some (c\<lparr>dst := (dst c)[nat i := ch]\<rparr>) else None)"

definition set_glyph :: "composer \<Rightarrow> composer option" where
  \<comment> \<open>\<open>dst[input_col] = next_glyph()\<close>\<close>
  "set_glyph c = (let (ch, c1) = next_glyph c in poke (input_col c1) ch c1)"

fun glyphs :: "nat \<Rightarrow> composer \<Rightarrow> composer option" where
  "glyphs 0 c = Some c"
| "glyphs (Suc n) c = (case set_glyph c of None \<Rightarrow> None | Some c1 \<Rightarrow> glyphs n c1)"

definition line_end :: "char \<Rightarrow> bool" where
  "line_end ch = (ch = CHR 0x0A \<or> ch = CHR 0x0D)"

definition backspace :: "char \<Rightarrow> bool" where
  "backspace ch = (ch = CHR 0x08 \<or> ch = CHR 0x7F)"

text \<open>A byte from the serial port that is not a line end: a backspace, or a character.\<close>

definition serial_char :: "char \<Rightarrow> composer \<Rightarrow> composer option" where
  "serial_char ch c =
     (if backspace ch
      then (case poke (input_col c) NUL c of
              None \<Rightarrow> None
            | Some c1 \<Rightarrow>
                (case (if input_col c1 > 0
                       then poke (input_col c1 - 1) NUL (c1\<lparr>input_col := input_col c1 - 1\<rparr>)
                       else Some c1) of
                   None \<Rightarrow> None
                 | Some c2 \<Rightarrow> Some (c2\<lparr>input_col := input_col c2 - 1\<rparr>)))
      else poke (input_col c) ch c)"

definition serial_available :: "input list \<Rightarrow> bool" where
  "serial_available ins = (case ins of Rx ch # _ \<Rightarrow> True | _ \<Rightarrow> False)"

text \<open>
  The loop over the columns. In the phase \<open>Choose\<close> the code is in the inner loop that
  chooses the character of the column \<open>input_col\<close>; in the phase \<open>Wait\<close> it has moved to
  the next column and waits for "name done", "change" or a byte of the serial port.
\<close>

datatype phase = Choose | Wait

function edit :: "phase \<Rightarrow> nat \<Rightarrow> input list \<Rightarrow> composer \<Rightarrow> composer option" where
  "edit Choose len [] c = None"
| "edit Choose len (Change n # ins) c =
     (case glyphs (Suc n) c of None \<Rightarrow> None | Some c1 \<Rightarrow> edit Choose len ins c1)"
| "edit Choose len (Rx ch # ins) c =
     (if line_end ch then Some c
      else (case serial_char ch c of
              None \<Rightarrow> None
            | Some c1 \<Rightarrow>
                (let c2 = c1\<lparr>input_col := input_col c1 + 1\<rparr>
                 in if input_col c2 \<ge> int len then Some c2 else edit Wait len ins c2)))"
| "edit Choose len (Accept # ins) c =
     (let c2 = c\<lparr>input_col := input_col c + 1\<rparr>
      in if input_col c2 \<ge> int len then Some c2 else edit Wait len ins c2)"
| "edit Wait len [] c = None"
| "edit Wait len (Accept # ins) c = Some c"
| "edit Wait len (Change n # ins) c =
     (if serial_available ins then edit Choose len ins c
      else (case set_glyph (c\<lparr>glyph := - 1\<rparr>) of
              None \<Rightarrow> None
            | Some c1 \<Rightarrow> edit Choose len ins c1))"
| "edit Wait len (Rx ch # ins) c = edit Choose len (Rx ch # ins) c"
  by pat_completeness auto
termination
  by (relation "measure (\<lambda>(ph, len, ins, c). 2 * length ins + (if ph = Wait then 1 else 0))") auto

definition start_edit :: "nat \<Rightarrow> input list \<Rightarrow> composer \<Rightarrow> composer option" where
  "start_edit len ins c =
     (if len \<le> length (dst c)
      then (case set_glyph (c\<lparr>dst := replicate len NUL @ drop len (dst c),
                              input_col := 0, glyph := - 1\<rparr>) of
              None \<Rightarrow> None
            | Some c1 \<Rightarrow> edit Choose len ins c1)
      else None)"

definition input_string :: "nat \<Rightarrow> input list \<Rightarrow> composer \<Rightarrow> composer option" where
  "input_string len ins c =
     (if dst c \<noteq> [] \<and> hd (dst c) \<noteq> NUL
      then (case ins of
              [] \<Rightarrow> None
            | Accept # _ \<Rightarrow> Some c
            | Change n # ins' \<Rightarrow>
                (case ins' of
                   Rx ch # _ \<Rightarrow> if line_end ch then Some c else start_edit len ins' c
                 | _ \<Rightarrow> start_edit len ins' c)
            | Rx ch # _ \<Rightarrow> if line_end ch then Some c else start_edit len ins c)
      else start_edit len ins c)"

subsection \<open>Ring stores\<close>

text \<open>
  Both call stores are rings: a count and the indices of the oldest and the newest
  record, over an array of \<open>C\<close> slots. \<open>ring_ok\<close> is the invariant of the data model
  (the indices are 0 while the ring is empty, as they are initially), \<open>ring_items\<close> lists
  the records held from the oldest to the newest, and \<open>spec_append\<close> is the index
  update of an append in the words of the specification, on the triple of count, oldest
  index and newest index.
\<close>

definition ring_ok :: "int \<Rightarrow> int \<Rightarrow> int \<Rightarrow> int \<Rightarrow> bool" where
  "ring_ok C n old new =
     (0 < C \<and> 0 \<le> n \<and> n \<le> C \<and> 0 \<le> old \<and> old < C
      \<and> new = (if n = 0 then 0 else (old + n - 1) mod C)
      \<and> (if n = 0 then old = 0 else True))"

definition ring_items :: "int \<Rightarrow> int \<Rightarrow> int \<Rightarrow> 'a list \<Rightarrow> 'a list" where
  "ring_items C n old xs = map (\<lambda>i. xs ! nat ((old + int i) mod C)) [0..<nat n]"

definition spec_append :: "int \<Rightarrow> int \<times> int \<times> int \<Rightarrow> int \<times> int \<times> int" where
  "spec_append C = (\<lambda>(count, oldestIndex, newestIndex).
     if count = 0 then (1, 0, 0)
     else (let newestIndex' = (newestIndex + 1) mod C
           in if count = C then (count, (oldestIndex + 1) mod C, newestIndex')
              else (count + 1, oldestIndex, newestIndex')))"

definition last_n :: "nat \<Rightarrow> 'a list \<Rightarrow> 'a list" where
  "last_n k xs = drop (length xs - k) xs"

definition calls_ok :: "state \<Rightarrow> bool" where
  "calls_ok s =
     (ring_ok MAX_CALLS (num_calls s) (oldest s) (newest s)
      \<and> length (calls s) = nat MAX_CALLS)"

definition held_calls :: "state \<Rightarrow> call_record_t list" where
  "held_calls s = ring_items MAX_CALLS (num_calls s) (oldest s) (calls s)"

text \<open>
  The archive is in order when its ring in \<open>eeprom_hdr\<close> is, and the flash holds what
  the program last wrote: the header, and an array of \<open>NUM_EEPROM_CALLS\<close> records.
  \<open>archive_calls\<close> are the records that the flash holds, read as \<open>eeprom_load\<close> reads
  them: by the header in the flash, from the oldest to the newest.
\<close>

definition archive_ok :: "state \<Rightarrow> bool" where
  "archive_ok s =
     (ring_ok NUM_EEPROM_CALLS (hdr_num_calls (eeprom_hdr s)) (hdr_oldest (eeprom_hdr s))
        (hdr_newest (eeprom_hdr s))
      \<and> length (image_calls (EEPROM s)) = nat NUM_EEPROM_CALLS
      \<and> image_hdr (EEPROM s) = eeprom_hdr s
      \<and> flash_hdr (EEPROM s) = eeprom_hdr s
      \<and> flash_calls (EEPROM s) = image_calls (EEPROM s))"

definition archive_calls :: "state \<Rightarrow> call_record_t list" where
  "archive_calls s =
     ring_items NUM_EEPROM_CALLS (hdr_num_calls (flash_hdr (EEPROM s)))
       (hdr_oldest (flash_hdr (EEPROM s))) (flash_calls (EEPROM s))"

text \<open>
  A sequence of appends: for each call, the four field arrays as the copies of a call
  start packet leave them, then \<open>add_call\<close> and \<open>eeprom_add_call\<close> as the main loop
  calls them. \<open>call_of\<close> is the record that \<open>add_call\<close> stores for the fields.
\<close>

type_synonym call_fields = "string \<times> string \<times> string \<times> string"

definition with_fields :: "call_fields \<Rightarrow> state \<Rightarrow> state" where
  "with_fields f s =
     (case f of (l, d, p, c) \<Rightarrow> s\<lparr>phoneline := l, datetime := d, phonenum := p, callername := c\<rparr>)"

definition call_of :: "call_fields \<Rightarrow> call_record_t" where
  "call_of f =
     (case f of (l, d, p, c) \<Rightarrow>
        \<lparr>rec_phoneline = line_index l, rec_seconds = 0, rec_datetime = d,
         rec_phonenum = p, rec_callername = c\<rparr>)"

fun add_calls :: "call_fields list \<Rightarrow> state \<Rightarrow> state option" where
  "add_calls [] s = Some s"
| "add_calls (f # fs) s =
     (case add_call (with_fields f s) of
        None \<Rightarrow> None
      | Some s1 \<Rightarrow>
          (case eeprom_add_call s1 of None \<Rightarrow> None | Some s2 \<Rightarrow> add_calls fs s2))"

text \<open>
  The indices that the loop of \<open>update_duration\<close> visits in a ring in order: from the
  newest record back to the oldest.
\<close>

definition recency :: "state \<Rightarrow> int list" where
  "recency s = map (\<lambda>i. (newest s - int i) mod MAX_CALLS) [0..<nat (num_calls s)]"

definition set_seconds :: "int \<Rightarrow> int \<Rightarrow> state \<Rightarrow> state" where
  \<comment> \<open>\<open>calls[ndx].seconds = seconds\<close>, and the display of that record where it is shown\<close>
  "set_seconds ndx seconds s =
     s\<lparr>calls := (calls s)[nat ndx := (calls s ! nat ndx)\<lparr>rec_seconds := seconds\<rparr>],
       displayed_age := (if displayed s = ndx \<and> ndx = newest s then 1 else displayed_age s)\<rparr>"

text \<open>
  The conditions of the main loop change \<open>pktptr\<close> and the field arrays only:
  \<open>same_store s s'\<close> says that all the rest of \<open>s'\<close> is as in \<open>s\<close>. \<open>advances n c\<close>
  says that the condition \<open>c\<close> has a result wherever \<open>n\<close> more bytes of the array
  \<open>packet\<close> lie in front of \<open>pktptr\<close>, and that it moves \<open>pktptr\<close> forward by at most
  \<open>n\<close>.
\<close>

definition same_store :: "state \<Rightarrow> state \<Rightarrow> bool" where
  "same_store s s' =
     (packet s' = packet s \<and> pktlen s' = pktlen s \<and> backlight_on s' = backlight_on s
      \<and> calls s' = calls s \<and> num_calls s' = num_calls s \<and> oldest s' = oldest s
      \<and> newest s' = newest s \<and> displayed s' = displayed s
      \<and> displayed_age s' = displayed_age s \<and> eeprom_hdr s' = eeprom_hdr s
      \<and> EEPROM s' = EEPROM s \<and> badpacket_count s' = badpacket_count s
      \<and> badpacket_length s' = badpacket_length s \<and> badpacket_type s' = badpacket_type s
      \<and> badpacket_data s' = badpacket_data s)"

definition advances :: "nat \<Rightarrow> cond \<Rightarrow> bool" where
  "advances n c =
     (\<forall>s. pktptr s + n \<le> length (packet s) \<longrightarrow> pktlen s \<le> int (length (packet s)) \<longrightarrow>
        (\<exists>r s'. c s = Some (r, s') \<and> pktptr s \<le> pktptr s' \<and> pktptr s' \<le> pktptr s + n
           \<and> same_store s s'))"

text \<open>
  The states the program is in between two packets: both rings in order and the packet
  buffer of \<open>MAX_PACKET\<close> bytes. \<open>branch_of\<close> is the branch that the packet of a state
  takes, and \<open>archive_zero\<close> says that no record of the archive, in the image or in the
  flash, has a duration other than zero.
\<close>

definition state_ok :: "state \<Rightarrow> bool" where
  "state_ok s = (calls_ok s \<and> archive_ok s \<and> length (packet s) = MAX_PACKET)"

definition branch_of :: "state \<Rightarrow> branch option" where
  "branch_of s = map_option fst (select_branch s)"

definition archive_zero :: "state \<Rightarrow> bool" where
  "archive_zero s =
     (list_all (\<lambda>r. rec_seconds r = 0) (image_calls (EEPROM s))
      \<and> list_all (\<lambda>r. rec_seconds r = 0) (flash_calls (EEPROM s)))"

text \<open>
  The bytes of a call start packet, in the grammar of the specification, from its
  fields: unit and serial number, line, duration, the classification \<open>cls\<close>
  (\<open>'' G ''\<close> or \<open>'' B ''\<close>), the sub-type byte and the three fields of 15 bytes. A
  call end packet has \<open>''I E ''\<close> and the seconds behind the preamble, and then any
  bytes. \<open>delete_at i\<close> deletes the byte at index \<open>i\<close>.
\<close>

definition call_start_packet ::
  "string \<Rightarrow> string \<Rightarrow> string \<Rightarrow> string \<Rightarrow> string \<Rightarrow> char \<Rightarrow> string \<Rightarrow> string \<Rightarrow> string \<Rightarrow> string" where
  "call_start_packet unit serial line dur cls sub dt ph nm =
     ''^^<U>'' @ unit @ ''<S>'' @ serial @ ''$'' @ line @ '' '' @ ''I S '' @ dur @ cls
     @ ''A'' @ [sub] @ '' '' @ dt @ ph @ nm"

definition call_end_packet :: "string \<Rightarrow> string \<Rightarrow> string \<Rightarrow> string \<Rightarrow> string \<Rightarrow> string" where
  "call_end_packet unit serial line secs rest =
     ''^^<U>'' @ unit @ ''<S>'' @ serial @ ''$'' @ line @ '' '' @ ''I E '' @ secs @ rest"


subsection \<open>Sample states and inputs\<close>

text \<open>Concrete states and packets on which the theorems below are evaluated.\<close>

definition short_packet_state :: state where
  "short_packet_state =
     power_on\<lparr>packet := ''AB'' @ replicate 253 NUL, pktlen := 2, pktptr := 1\<rparr>"

definition line_03_state :: state where
  "line_03_state = power_on\<lparr>phoneline := [CHR ''0'', CHR ''3'', NUL]\<rparr>"

definition line_9x_state :: state where
  "line_9x_state = power_on\<lparr>phoneline := [CHR ''9'', CHR ''x'', NUL]\<rparr>"

definition sample_calls :: "call_fields list" where
  "sample_calls =
     map (\<lambda>i. ([CHR ''0'', CHR ''1'', NUL], replicate 16 NUL, replicate 16 NUL,
               replicate 15 (char_of (i mod 256)) @ [NUL])) [0..<201]"

definition call_a :: call_record_t where
  "call_a = zero_call\<lparr>rec_phoneline := 0, rec_callername := ''Caller one'' @ replicate 6 NUL\<rparr>"

definition call_b :: call_record_t where
  "call_b = zero_call\<lparr>rec_phoneline := 2, rec_callername := ''Caller two'' @ replicate 6 NUL\<rparr>"

definition call_c :: call_record_t where
  "call_c = zero_call\<lparr>rec_phoneline := 0, rec_callername := ''Caller three'' @ replicate 4 NUL\<rparr>"

definition three_calls_state :: state where
  "three_calls_state =
     power_on\<lparr>calls := call_a # call_b # call_c # replicate 197 zero_call,
              num_calls := 3, oldest := 0, newest := 2,
              phoneline := [CHR ''0'', CHR ''3'', NUL],
              duration := [CHR ''0'', CHR ''1'', CHR ''2'', CHR ''3'', NUL]\<rparr>"

text \<open>Two of the test calls of \<open>read_packet\<close>; the first with its caller name filled to 15 bytes.\<close>

definition test_call_1 :: string where
  "test_call_1 =
     call_start_packet ''123456'' ''123456'' ''01'' ''0000'' '' G '' (CHR ''0'')
       ''03/14 10:55 PM '' ''111 111 1111   '' ''Caller one     ''"

definition test_call_end :: string where
  "test_call_end =
     call_end_packet ''123456'' ''123456'' ''01'' ''0003''
       '' G A2 03/14 10:56 PM 111 111 1111   Caller one''"

text \<open>
  A call end packet whose seconds are not a number, and a packet that has \<open>''I S ''\<close>
  behind the preamble and \<open>''I E ''\<close> behind its duration field.
\<close>

definition bad_seconds_packet :: string where
  "bad_seconds_packet =
     call_end_packet ''123456'' ''123456'' ''01'' ''abcd''
       '' G A2 03/14 10:56 PM 111 111 1111   Caller one''"

definition start_end_packet :: "string \<Rightarrow> string \<Rightarrow> string \<Rightarrow> string \<Rightarrow> string \<Rightarrow> string \<Rightarrow> string" where
  "start_end_packet unit serial line dur secs rest =
     ''^^<U>'' @ unit @ ''<S>'' @ serial @ ''$'' @ line @ '' '' @ ''I S '' @ dur
     @ ''I E '' @ secs @ rest"

definition overlap_packet :: string where
  "overlap_packet =
     start_end_packet ''123456'' ''123456'' ''01'' ''0000'' ''0123''
       '' G A2 03/14 10:56 PM 111 111 1111   Calle''"

text \<open>
  A string of 15 bytes in an array of 16, empty before the edit, and the same array as
  \<open>input_string\<close> has it when the edit of the first column starts.
\<close>

definition blank_name :: composer where
  "blank_name = \<lparr>dst = replicate 16 NUL, input_col = 0, glyph = 0\<rparr>"

definition first_column :: composer where
  "first_column = \<lparr>dst = CHR ''A'' # replicate 15 NUL, input_col = 0, glyph = 0\<rparr>"

section \<open>Properties\<close>

subsection \<open>Field copies and the phone line\<close>

lemma copy_loop_eq:
  "plen \<le> int (length pkt) \<Longrightarrow>
   copy_loop len pkt plen p =
     Some (map (\<lambda>j. if int (p + j) < plen then pkt ! (p + j) else NUL) [0..<len],
           if int p < plen then min (p + len) (nat plen) else p)"
proof (induction len arbitrary: p)
  case 0
  then show ?case by simp
next
  case (Suc len)
  show ?case
  proof (cases "int p < plen")
    case True
    with Suc.prems have inb: "p < length pkt" by linarith
    have "copy_loop len pkt plen (Suc p) =
        Some (map (\<lambda>j. if int (Suc p + j) < plen then pkt ! (Suc p + j) else NUL) [0..<len],
           if int (Suc p) < plen then min (Suc p + len) (nat plen) else Suc p)"
      by (rule Suc.IH [OF Suc.prems])
    with True inb show ?thesis
      by (auto simp add: map_upt_Suc simp del: upt_Suc)
  next
    case False
    have "copy_loop len pkt plen p =
        Some (map (\<lambda>j. if int (p + j) < plen then pkt ! (p + j) else NUL) [0..<len],
           if int p < plen then min (p + len) (nat plen) else p)"
      by (rule Suc.IH [OF Suc.prems])
    with False show ?thesis
      by (auto simp add: map_upt_Suc simp del: upt_Suc)
  qed
qed

lemma get_set_field [simp]: "get_field d (set_field d v s) = v"
  by (cases d) simp_all

lemma pktptr_set_field [simp]: "pktptr (set_field d v s) = pktptr s"
  by (cases d) simp_all

lemma copy_loop_frame:
  assumes "plen \<le> int (length pkt)" and "take (nat plen) pkt' = take (nat plen) pkt"
  shows "copy_loop len pkt' plen p = copy_loop len pkt plen p"
proof -
  from assms have len': "plen \<le> int (length pkt')"
    by (metis length_take min_def nat_le_iff nat_int of_nat_le_iff linorder_le_cases)
  have "pkt' ! i = pkt ! i" if "int i < plen" for i
  proof -
    from that have "i < nat plen" by linarith
    then have "pkt' ! i = take (nat plen) pkt' ! i" and "pkt ! i = take (nat plen) pkt ! i"
      by simp_all
    with assms(2) show ?thesis by simp
  qed
  then show ?thesis
    by (simp add: copy_loop_eq [OF assms(1)] copy_loop_eq [OF len'])
qed

text \<open>
  Claim C8. A copy of \<open>len\<close> bytes into a field array returns, stores the packet byte
  at every position before \<open>pktlen\<close> and a zero byte for every position at or after
  \<open>pktlen\<close>, leaves the array behind the first \<open>len\<close> bytes as it was, and never moves
  \<open>pktptr\<close> beyond \<open>pktlen\<close>. It reads no byte at or after \<open>pktlen\<close>: whatever the
  buffer holds there, the copy gives the same field and the same \<open>pktptr\<close>.
\<close>

theorem copy_reads_inside_packet:
  assumes "pktlen s \<le> int (length (packet s))"
  shows "\<exists>s'. copy d len s = Some (True, s')
     \<and> take len (get_field d s') =
         map (\<lambda>j. if int (pktptr s + j) < pktlen s then packet s ! (pktptr s + j) else NUL) [0..<len]
     \<and> drop len (get_field d s') = drop len (get_field d s)
     \<and> pktptr s' = (if int (pktptr s) < pktlen s then min (pktptr s + len) (nat (pktlen s)) else pktptr s)
     \<and> (\<forall>pkt'. take (nat (pktlen s)) pkt' = take (nat (pktlen s)) (packet s) \<longrightarrow>
           (\<exists>s''. copy d len (s\<lparr>packet := pkt'\<rparr>) = Some (True, s'')
              \<and> get_field d s'' = get_field d s' \<and> pktptr s'' = pktptr s'))"
proof -
  let ?d = "map (\<lambda>j. if int (pktptr s + j) < pktlen s then packet s ! (pktptr s + j) else NUL) [0..<len]"
  let ?p = "if int (pktptr s) < pktlen s then min (pktptr s + len) (nat (pktlen s)) else pktptr s"
  let ?s' = "set_field d (?d @ drop len (get_field d s)) (s\<lparr>pktptr := ?p\<rparr>)"
  have c: "copy d len s = Some (True, ?s')"
    by (simp add: copy_def copy_loop_eq [OF assms])
  have f: "get_field d (s\<lparr>packet := pkt'\<rparr>) = get_field d s" for pkt'
    by (cases d) simp_all
  have fr: "\<exists>s''. copy d len (s\<lparr>packet := pkt'\<rparr>) = Some (True, s'')
              \<and> get_field d s'' = get_field d ?s' \<and> pktptr s'' = pktptr ?s'"
    if "take (nat (pktlen s)) pkt' = take (nat (pktlen s)) (packet s)" for pkt'
    using copy_loop_frame [OF assms that, of len "pktptr s"]
    by (simp add: copy_def copy_loop_eq [OF assms] f)
  show ?thesis
    using c fr by simp
qed

theorem copy_reads_inside_packet_witness:
  "pktlen short_packet_state \<le> int (length (packet short_packet_state))
   \<and> (\<exists>s'. copy Duration 4 short_packet_state = Some (True, s')
         \<and> take 4 (duration s') = [CHR ''B'', NUL, NUL, NUL] \<and> pktptr s' = 2)"
proof -
  have h: "pktlen short_packet_state \<le> int (length (packet short_packet_state))"
    by (simp add: short_packet_state_def power_on_def)
  have p: "pktptr short_packet_state = 1" "pktlen short_packet_state = 2"
      "packet short_packet_state ! Suc 0 = CHR ''B''"
    by (simp_all add: short_packet_state_def power_on_def)
  have m: "[0..<4] = [0, 1, 2, 3]"
    by (simp add: upt_rec)
  from copy_reads_inside_packet [OF h, of Duration 4] obtain s' where
    "copy Duration 4 short_packet_state = Some (True, s')"
    "take 4 (duration s') = [CHR ''B'', NUL, NUL, NUL]" "pktptr s' = 2"
    by (auto simp add: p m)
  with h show ?thesis by blast
qed

text \<open>
  Claim C7. The line number that \<open>parse_phoneline\<close> returns is at most 7. Where the text
  in \<open>phoneline\<close> scans as a decimal number \<open>n\<close> from 1 to 8 it is \<open>n - 1\<close>; where the
  number is outside that range, or the text does not scan, it is 7.
\<close>

theorem parse_phoneline_range:
  "parse_phoneline s \<le> 7
   \<and> (\<forall>n. sscanf_d (phoneline s) = Some n \<longrightarrow> 1 \<le> n \<longrightarrow> n \<le> 8 \<longrightarrow> int (parse_phoneline s) = n - 1)
   \<and> (\<forall>n. sscanf_d (phoneline s) = Some n \<longrightarrow> (n < 1 \<or> 8 < n) \<longrightarrow> parse_phoneline s = 7)
   \<and> (sscanf_d (phoneline s) = None \<longrightarrow> parse_phoneline s = 7)"
  by (auto simp add: parse_phoneline_def line_index_def MAX_LINES_def split: option.splits)

theorem parse_phoneline_range_witness:
  "sscanf_d (phoneline line_03_state) = Some 3 \<and> parse_phoneline line_03_state = 2
   \<and> sscanf_d (phoneline line_9x_state) = Some 9 \<and> parse_phoneline line_9x_state = 7"
proof -
  have a: "sscanf_d (phoneline line_03_state) = Some 3"
    by (simp add: line_03_state_def sscanf_d_def c_str_def scan_int_def isdigit_def isspace_def NUL_def)
  have b: "sscanf_d (phoneline line_9x_state) = Some 9"
    by (simp add: line_9x_state_def sscanf_d_def c_str_def scan_int_def isdigit_def isspace_def NUL_def)
  show ?thesis
    using a b parse_phoneline_range [of line_03_state] parse_phoneline_range [of line_9x_state]
    by simp
qed

subsection \<open>Appends to the ring stores\<close>

lemma mod_shift_neq:
  fixes C :: int
  assumes "0 \<le> i" "i < j" "j - i < C"
  shows "(a + i) mod C \<noteq> (a + j) mod C"
proof
  assume "(a + i) mod C = (a + j) mod C"
  then have "C dvd (a + j) - (a + i)"
    by (metis mod_eq_dvd_iff)
  then have "C dvd j - i" by simp
  with assms have "C \<le> j - i"
    by (intro zdvd_imp_le) auto
  with assms show False by simp
qed

lemma ring_items_length [simp]: "length (ring_items C n old xs) = nat n"
  by (simp add: ring_items_def)

lemma ring_items_nth:
  "i < nat n \<Longrightarrow> ring_items C n old xs ! i = xs ! nat ((old + int i) mod C)"
  by (simp add: ring_items_def)

lemma ring_append_empty:
  assumes ok: "ring_ok C 0 old new" and len: "length xs = nat C"
  shows "spec_append C (0, old, new) = (1, 0, 0)"
    and "ring_ok C 1 0 0"
    and "ring_items C 1 0 (xs[0 := x]) = last_n (nat C) (ring_items C 0 old xs @ [x])"
proof -
  from ok have "0 < C" by (simp add: ring_ok_def)
  then have "Suc 0 \<le> nat C" by linarith
  then have d: "Suc 0 - nat C = 0" by simp
  show "spec_append C (0, old, new) = (1, 0, 0)"
    by (simp add: spec_append_def)
  from ok show "ring_ok C 1 0 0"
    by (simp add: ring_ok_def)
  from len ok show "ring_items C 1 0 (xs[0 := x]) = last_n (nat C) (ring_items C 0 old xs @ [x])"
    by (simp add: ring_items_def last_n_def d ring_ok_def)
qed

lemma ring_append_grow:
  assumes ok: "ring_ok C n old new" and len: "length xs = nat C" and n: "0 < n" "n < C"
  shows "spec_append C (n, old, new) = (n + 1, old, (old + n) mod C)"
    and "ring_ok C (n + 1) old ((old + n) mod C)"
    and "ring_items C (n + 1) old (xs[nat ((old + n) mod C) := x])
         = last_n (nat C) (ring_items C n old xs @ [x])"
proof -
  from ok n have new: "new = (old + n - 1) mod C" and C: "0 < C" and old: "0 \<le> old" "old < C"
    by (simp_all add: ring_ok_def)
  have "(new + 1) mod C = (old + n) mod C"
    unfolding new by (simp add: mod_simps)
  with n show "spec_append C (n, old, new) = (n + 1, old, (old + n) mod C)"
    by (simp add: spec_append_def)
  from ok n show "ring_ok C (n + 1) old ((old + n) mod C)"
    by (simp add: ring_ok_def)
  have inb: "nat ((old + n) mod C) < length xs"
    using C len by (simp add: nat_less_iff)
  show "ring_items C (n + 1) old (xs[nat ((old + n) mod C) := x])
         = last_n (nat C) (ring_items C n old xs @ [x])"
  proof (rule nth_equalityI)
    show "length (ring_items C (n + 1) old (xs[nat ((old + n) mod C) := x]))
        = length (last_n (nat C) (ring_items C n old xs @ [x]))"
      using n by (simp add: last_n_def nat_add_distrib)
  next
    fix i assume "i < length (ring_items C (n + 1) old (xs[nat ((old + n) mod C) := x]))"
    then have i: "i < nat (n + 1)" by simp
    have drop0: "last_n (nat C) (ring_items C n old xs @ [x]) = ring_items C n old xs @ [x]"
      using n by (simp add: last_n_def)
    show "ring_items C (n + 1) old (xs[nat ((old + n) mod C) := x]) ! i
        = last_n (nat C) (ring_items C n old xs @ [x]) ! i"
    proof (cases "i < nat n")
      case True
      then have "int i < n" by linarith
      then have "(old + int i) mod C \<noteq> (old + n) mod C"
        using n by (intro mod_shift_neq) auto
      moreover have "0 \<le> (old + int i) mod C" "0 \<le> (old + n) mod C"
        using C by simp_all
      ultimately have "nat ((old + int i) mod C) \<noteq> nat ((old + n) mod C)"
        by (simp add: nat_eq_iff)
      with True i show ?thesis
        by (simp add: drop0 ring_items_nth nth_append)
    next
      case False
      with i n have "int i = n" by linarith
      with False i inb n show ?thesis
        by (simp add: drop0 ring_items_nth nth_append)
    qed
  qed
qed

lemma ring_append_full:
  assumes ok: "ring_ok C C old new" and len: "length xs = nat C"
  shows "spec_append C (C, old, new) = (C, (old + 1) mod C, old)"
    and "ring_ok C C ((old + 1) mod C) old"
    and "ring_items C C ((old + 1) mod C) (xs[nat old := x])
         = last_n (nat C) (ring_items C C old xs @ [x])"
proof -
  from ok have C: "0 < C" and old: "0 \<le> old" "old < C" and new: "new = (old + C - 1) mod C"
    by (simp_all add: ring_ok_def)
  have "(new + 1) mod C = old"
    unfolding new using old by (simp add: mod_simps)
  with C show "spec_append C (C, old, new) = (C, (old + 1) mod C, old)"
    by (simp add: spec_append_def)
  have "(old + 1) mod C + C - 1 = (old + 1) mod C + (C - 1)"
    by simp
  then have "((old + 1) mod C + C - 1) mod C = ((old + 1) + (C - 1)) mod C"
    by (simp only: mod_add_left_eq)
  then have "((old + 1) mod C + C - 1) mod C = old"
    using old by simp
  with C old show "ring_ok C C ((old + 1) mod C) old"
    by (simp add: ring_ok_def)
  show "ring_items C C ((old + 1) mod C) (xs[nat old := x])
         = last_n (nat C) (ring_items C C old xs @ [x])"
  proof (rule nth_equalityI)
    show "length (ring_items C C ((old + 1) mod C) (xs[nat old := x]))
        = length (last_n (nat C) (ring_items C C old xs @ [x]))"
      by (simp add: last_n_def)
  next
    fix i assume "i < length (ring_items C C ((old + 1) mod C) (xs[nat old := x]))"
    then have i: "i < nat C" by simp
    have "(old + 1) + int i = old + (1 + int i)"
      by simp
    then have idx: "((old + 1) mod C + int i) mod C = (old + (1 + int i)) mod C"
      by (simp only: mod_add_left_eq)
    have rhs: "last_n (nat C) (ring_items C C old xs @ [x]) ! i
        = (ring_items C C old xs @ [x]) ! (i + 1)"
      using i by (auto simp add: last_n_def nth_append less_diff_conv)
    show "ring_items C C ((old + 1) mod C) (xs[nat old := x]) ! i
        = last_n (nat C) (ring_items C C old xs @ [x]) ! i"
    proof (cases "i + 1 < nat C")
      case True
      then have "1 + int i < C" by linarith
      then have "(old + 0) mod C \<noteq> (old + (1 + int i)) mod C"
        by (intro mod_shift_neq) auto
      then have "(old + (1 + int i)) mod C \<noteq> old"
        using old by simp
      moreover have "0 \<le> (old + (1 + int i)) mod C"
        using C by simp
      ultimately have "nat ((old + (1 + int i)) mod C) \<noteq> nat old"
        using old by (simp add: nat_eq_iff)
      with True i show ?thesis
        by (simp add: rhs ring_items_nth nth_append idx)
    next
      case False
      with i have e: "1 + int i = C" by linarith
      then have "(old + (1 + int i)) mod C = old"
        using old by simp
      with False i old len show ?thesis
        by (simp add: rhs ring_items_nth nth_append idx)
    qed
  qed
qed

lemma ring_append:
  assumes ok: "ring_ok C n old new" and len: "length (xs :: 'a list) = nat C"
  obtains n' old' new' where
    "spec_append C (n, old, new) = (n', old', new')"
    "ring_ok C n' old' new'"
    "ring_items C n' old' (xs[nat new' := x]) = last_n (nat C) (ring_items C n old xs @ [x])"
proof -
  from ok have n: "0 \<le> n" "n \<le> C" and C: "0 < C" and old: "0 \<le> old" "old < C"
    by (simp_all add: ring_ok_def)
  consider "n = 0" | "0 < n" "n < C" | "n = C"
    using n by linarith
  then show thesis
  proof cases
    case 1
    with ok have ok0: "ring_ok C 0 old new" by simp
    from that [OF _ ring_append_empty(2) [OF ok0 len]] ring_append_empty(1) [OF ok0 len]
      ring_append_empty(3) [OF ok0 len, of x] 1
    show ?thesis by simp
  next
    case 2
    from that [OF ring_append_grow(1) [OF ok len 2] ring_append_grow(2) [OF ok len 2]]
      ring_append_grow(3) [OF ok len 2, of x]
    show ?thesis by simp
  next
    case 3
    with ok have okC: "ring_ok C C old new" by simp
    from that [OF _ ring_append_full(2) [OF okC len]] ring_append_full(1) [OF okC len]
      ring_append_full(3) [OF okC len, of x] 3
    show ?thesis by simp
  qed
qed

lemma ring_ok_newest:
  "ring_ok C n old new \<Longrightarrow> 0 \<le> new \<and> new < C"
  by (auto simp add: ring_ok_def)

lemma short_int_id: "- 32768 \<le> x \<Longrightarrow> x < 32768 \<Longrightarrow> short_int x = x"
  by (simp add: short_int_def)

lemma unsigned_int_id: "0 \<le> x \<Longrightarrow> x < 4294967296 \<Longrightarrow> unsigned_int x = x"
  by (simp add: unsigned_int_def)

lemma wrap_is_mod:
  fixes C :: int
  shows "0 \<le> x \<Longrightarrow> x < C \<Longrightarrow> (if x + 1 \<ge> C then 0 else x + 1) = (x + 1) mod C"
  by (cases "x + 1 = C") simp_all

lemma add_call_eq:
  assumes ok: "calls_ok s"
    and sp: "spec_append MAX_CALLS (num_calls s, oldest s, newest s) = (n', o', w')"
  shows "add_call s = Some (s\<lparr>num_calls := n', oldest := o', newest := w',
           calls := (calls s)[nat w' :=
                 \<lparr>rec_phoneline = parse_phoneline s, rec_seconds = 0,
                  rec_datetime = datetime s, rec_phonenum = phonenum s,
                  rec_callername = callername s\<rparr>]\<rparr>)"
proof -
  from ok have r: "ring_ok MAX_CALLS (num_calls s) (oldest s) (newest s)"
    and len: "length (calls s) = nat MAX_CALLS"
    by (simp_all add: calls_ok_def)
  from r have n: "0 \<le> num_calls s" "num_calls s \<le> MAX_CALLS"
    and old: "0 \<le> oldest s" "oldest s < MAX_CALLS"
    and new: "0 \<le> newest s" "newest s < MAX_CALLS"
    by (auto simp add: ring_ok_def)
  have M: "MAX_CALLS = 200" by (simp add: MAX_CALLS_def)
  have sn: "short_int (newest s + 1) = newest s + 1"
    using new by (simp add: short_int_id M)
  have so: "short_int (oldest s + 1) = oldest s + 1"
    using old by (simp add: short_int_id M)
  have pp: "parse_phoneline (s\<lparr>num_calls := a\<rparr>) = parse_phoneline s"
     "parse_phoneline (s\<lparr>newest := a\<rparr>) = parse_phoneline s"
     "parse_phoneline (s\<lparr>newest := a, num_calls := b\<rparr>) = parse_phoneline s"
     "parse_phoneline (s\<lparr>newest := a, oldest := b\<rparr>) = parse_phoneline s" for a b
    by (simp_all add: parse_phoneline_def)
  consider (empty) "num_calls s = 0"
    | (grow_wrap) "0 < num_calls s" "num_calls s < MAX_CALLS" "newest s + 1 = MAX_CALLS"
    | (grow) "0 < num_calls s" "num_calls s < MAX_CALLS" "newest s + 1 < MAX_CALLS"
    | (full_ww) "num_calls s = MAX_CALLS" "newest s + 1 = MAX_CALLS" "oldest s + 1 = MAX_CALLS"
    | (full_wn) "num_calls s = MAX_CALLS" "newest s + 1 = MAX_CALLS" "oldest s + 1 < MAX_CALLS"
    | (full_nw) "num_calls s = MAX_CALLS" "newest s + 1 < MAX_CALLS" "oldest s + 1 = MAX_CALLS"
    | (full_nn) "num_calls s = MAX_CALLS" "newest s + 1 < MAX_CALLS" "oldest s + 1 < MAX_CALLS"
    using n old new by (auto simp add: less_le)
  then show ?thesis
  proof cases
    case empty
    with r have z: "newest s = 0" "oldest s = 0" by (simp_all add: ring_ok_def)
    from sp empty have e: "n' = 1" "o' = 0" "w' = 0"
      by (simp_all add: spec_append_def M Let_def)
    show ?thesis
      using z by (simp add: add_call_def empty e in_bounds_def len M pp)
  next
    case grow_wrap
    from sp grow_wrap have e: "n' = num_calls s + 1" "o' = oldest s" "w' = 0"
      by (simp_all add: spec_append_def M Let_def)
    show ?thesis
      using grow_wrap old new by (simp add: add_call_def Let_def e short_int_id in_bounds_def len M pp)
  next
    case grow
    from sp grow new have e: "n' = num_calls s + 1" "o' = oldest s" "w' = newest s + 1"
      by (simp_all add: spec_append_def M Let_def)
    show ?thesis
      using grow old new by (simp add: add_call_def Let_def e short_int_id in_bounds_def len M pp)
  next
    case full_ww
    from sp full_ww have e: "n' = num_calls s" "o' = 0" "w' = 0"
      by (simp_all add: spec_append_def M Let_def)
    show ?thesis
      using full_ww old new by (simp add: add_call_def Let_def e short_int_id in_bounds_def len M pp)
  next
    case full_wn
    from sp full_wn old have e: "n' = num_calls s" "o' = oldest s + 1" "w' = 0"
      by (simp_all add: spec_append_def M Let_def)
    show ?thesis
      using full_wn old new by (simp add: add_call_def Let_def e short_int_id in_bounds_def len M pp)
  next
    case full_nw
    from sp full_nw new have e: "n' = num_calls s" "o' = 0" "w' = newest s + 1"
      by (simp_all add: spec_append_def M Let_def)
    show ?thesis
      using full_nw old new by (simp add: add_call_def Let_def e short_int_id in_bounds_def len M pp)
  next
    case full_nn
    from sp full_nn new old have e: "n' = num_calls s" "o' = oldest s + 1" "w' = newest s + 1"
      by (simp_all add: spec_append_def M Let_def)
    show ?thesis
      using full_nn old new by (simp add: add_call_def Let_def e short_int_id in_bounds_def len M pp)
  qed
qed

lemma NUM_EEPROM_CALLS_eq: "NUM_EEPROM_CALLS = 74"
  by (simp add: NUM_EEPROM_CALLS_def EEPROM_SIZE_def sizeof_eeprom_hdr_t_def sizeof_call_record_t_def)

lemma eeprom_add_call_eq:
  assumes ok: "archive_ok s" and inb: "in_bounds (newest s) (calls s)"
    and sp: "spec_append NUM_EEPROM_CALLS
        (hdr_num_calls (eeprom_hdr s), hdr_oldest (eeprom_hdr s), hdr_newest (eeprom_hdr s))
        = (n', o', w')"
  shows "eeprom_add_call s =
     Some (s\<lparr>eeprom_hdr := (eeprom_hdr s)\<lparr>hdr_num_calls := n', hdr_oldest := o', hdr_newest := w'\<rparr>,
             EEPROM := (EEPROM s)\<lparr>image_hdr := (eeprom_hdr s)\<lparr>hdr_num_calls := n', hdr_oldest := o', hdr_newest := w'\<rparr>,
                        image_calls := (image_calls (EEPROM s))[nat w' := calls s ! nat (newest s)],
                        flash_hdr := (eeprom_hdr s)\<lparr>hdr_num_calls := n', hdr_oldest := o', hdr_newest := w'\<rparr>,
                        flash_calls := (image_calls (EEPROM s))[nat w' := calls s ! nat (newest s)],
                        commits := Suc (commits (EEPROM s))\<rparr>\<rparr>)"
proof -
  let ?h = "eeprom_hdr s"
  from ok have r: "ring_ok NUM_EEPROM_CALLS (hdr_num_calls ?h) (hdr_oldest ?h) (hdr_newest ?h)"
    and len: "length (image_calls (EEPROM s)) = nat NUM_EEPROM_CALLS"
    by (simp_all add: archive_ok_def)
  have M: "NUM_EEPROM_CALLS = 74" by (rule NUM_EEPROM_CALLS_eq)
  from r have n: "0 \<le> hdr_num_calls ?h" "hdr_num_calls ?h \<le> 74"
    and old: "0 \<le> hdr_oldest ?h" "hdr_oldest ?h < 74"
    and new: "0 \<le> hdr_newest ?h" "hdr_newest ?h < 74"
    by (auto simp add: ring_ok_def M)
  have E: "EEPROM s = \<lparr>image_hdr = image_hdr (EEPROM s), image_calls = image_calls (EEPROM s),
       flash_hdr = flash_hdr (EEPROM s), flash_calls = flash_calls (EEPROM s),
       commits = commits (EEPROM s)\<rparr>"
    by simp
  consider (empty) "hdr_num_calls ?h = 0"
    | (grow_wrap) "0 < hdr_num_calls ?h" "hdr_num_calls ?h < 74" "hdr_newest ?h + 1 = 74"
    | (grow) "0 < hdr_num_calls ?h" "hdr_num_calls ?h < 74" "hdr_newest ?h + 1 < 74"
    | (full_ww) "hdr_num_calls ?h = 74" "hdr_newest ?h + 1 = 74" "hdr_oldest ?h + 1 = 74"
    | (full_wn) "hdr_num_calls ?h = 74" "hdr_newest ?h + 1 = 74" "hdr_oldest ?h + 1 < 74"
    | (full_nw) "hdr_num_calls ?h = 74" "hdr_newest ?h + 1 < 74" "hdr_oldest ?h + 1 = 74"
    | (full_nn) "hdr_num_calls ?h = 74" "hdr_newest ?h + 1 < 74" "hdr_oldest ?h + 1 < 74"
    using n old new by (auto simp add: less_le)
  then show ?thesis
  proof cases
    case empty
    with r have z: "hdr_newest ?h = 0" "hdr_oldest ?h = 0" by (simp_all add: ring_ok_def)
    from sp empty have e: "n' = 1" "o' = 0" "w' = 0"
      by (simp_all add: spec_append_def M Let_def)
    have hq: "?h\<lparr>hdr_num_calls := 1, hdr_oldest := 0, hdr_newest := 0\<rparr> = ?h\<lparr>hdr_num_calls := 1\<rparr>"
      by (rule eeprom_hdr_t.equality) (simp_all add: z)
    show ?thesis
      using z inb
      by (simp add: eeprom_add_call_def eeprom_write_hdr_def eeprom_write_call_def
          EEPROM_commit_def empty e in_bounds_def len M Let_def hq)
  next
    case grow_wrap
    from sp grow_wrap have e: "n' = hdr_num_calls ?h + 1" "o' = hdr_oldest ?h" "w' = 0"
      by (simp_all add: spec_append_def M Let_def)
    show ?thesis
      using grow_wrap old new inb
      by (simp add: eeprom_add_call_def eeprom_write_hdr_def eeprom_write_call_def
          EEPROM_commit_def Let_def e short_int_id unsigned_int_id in_bounds_def len M)
  next
    case grow
    from sp grow new have e: "n' = hdr_num_calls ?h + 1" "o' = hdr_oldest ?h" "w' = hdr_newest ?h + 1"
      by (simp_all add: spec_append_def M Let_def)
    show ?thesis
      using grow old new inb
      by (simp add: eeprom_add_call_def eeprom_write_hdr_def eeprom_write_call_def
          EEPROM_commit_def Let_def e short_int_id unsigned_int_id in_bounds_def len M)
  next
    case full_ww
    from sp full_ww have e: "n' = hdr_num_calls ?h" "o' = 0" "w' = 0"
      by (simp_all add: spec_append_def M Let_def)
    show ?thesis
      using full_ww old new inb
      by (simp add: eeprom_add_call_def eeprom_write_hdr_def eeprom_write_call_def
          EEPROM_commit_def Let_def e short_int_id unsigned_int_id in_bounds_def len M)
  next
    case full_wn
    from sp full_wn old have e: "n' = hdr_num_calls ?h" "o' = hdr_oldest ?h + 1" "w' = 0"
      by (simp_all add: spec_append_def M Let_def)
    show ?thesis
      using full_wn old new inb
      by (simp add: eeprom_add_call_def eeprom_write_hdr_def eeprom_write_call_def
          EEPROM_commit_def Let_def e short_int_id unsigned_int_id in_bounds_def len M)
  next
    case full_nw
    from sp full_nw new have e: "n' = hdr_num_calls ?h" "o' = 0" "w' = hdr_newest ?h + 1"
      by (simp_all add: spec_append_def M Let_def)
    show ?thesis
      using full_nw old new inb
      by (simp add: eeprom_add_call_def eeprom_write_hdr_def eeprom_write_call_def
          EEPROM_commit_def Let_def e short_int_id unsigned_int_id in_bounds_def len M)
  next
    case full_nn
    from sp full_nn new old have e: "n' = hdr_num_calls ?h" "o' = hdr_oldest ?h + 1" "w' = hdr_newest ?h + 1"
      by (simp_all add: spec_append_def M Let_def)
    show ?thesis
      using full_nn old new inb
      by (simp add: eeprom_add_call_def eeprom_write_hdr_def eeprom_write_call_def
          EEPROM_commit_def Let_def e short_int_id unsigned_int_id in_bounds_def len M)
  qed
qed

lemma last_n_last_n: "last_n k (last_n k xs @ ys) = last_n k (xs @ ys)"
proof (cases "k \<le> length xs")
  case True
  then show ?thesis by (simp add: last_n_def add.commute)
next
  case False
  then show ?thesis by (simp add: last_n_def)
qed

lemma length_last_n [simp]: "length (last_n k xs) = min k (length xs)"
  by (simp add: last_n_def)

lemma calls_ok_with_fields [simp]: "calls_ok (with_fields f s) = calls_ok s"
  by (cases f) (simp add: with_fields_def calls_ok_def)

lemma archive_ok_with_fields [simp]: "archive_ok (with_fields f s) = archive_ok s"
  by (cases f) (simp add: with_fields_def archive_ok_def)

lemma with_fields_store [simp]:
  "calls (with_fields f s) = calls s" "num_calls (with_fields f s) = num_calls s"
  "oldest (with_fields f s) = oldest s" "newest (with_fields f s) = newest s"
  "eeprom_hdr (with_fields f s) = eeprom_hdr s" "EEPROM (with_fields f s) = EEPROM s"
  by (cases f; simp add: with_fields_def)+

lemma parsed_with_fields:
  "\<lparr>rec_phoneline = parse_phoneline (with_fields f s), rec_seconds = 0,
    rec_datetime = datetime (with_fields f s), rec_phonenum = phonenum (with_fields f s),
    rec_callername = callername (with_fields f s)\<rparr> = call_of f"
  by (cases f) (simp add: with_fields_def call_of_def parse_phoneline_def)

lemma append_step:
  assumes c: "calls_ok s" and a: "archive_ok s"
  shows "\<exists>t u. add_call (with_fields f s) = Some t \<and> eeprom_add_call t = Some u
      \<and> calls_ok u \<and> archive_ok u
      \<and> (num_calls u, oldest u, newest u)
          = spec_append MAX_CALLS (num_calls s, oldest s, newest s)
      \<and> (hdr_num_calls (eeprom_hdr u), hdr_oldest (eeprom_hdr u), hdr_newest (eeprom_hdr u))
          = spec_append NUM_EEPROM_CALLS
              (hdr_num_calls (eeprom_hdr s), hdr_oldest (eeprom_hdr s), hdr_newest (eeprom_hdr s))
      \<and> held_calls u = last_n (nat MAX_CALLS) (held_calls s @ [call_of f])
      \<and> archive_calls u = last_n (nat NUM_EEPROM_CALLS) (archive_calls s @ [call_of f])
      \<and> in_bounds (newest u) (calls u) \<and> calls u ! nat (newest u) = call_of f
      \<and> 0 < num_calls u
      \<and> commits (EEPROM u) = Suc (commits (EEPROM s))
      \<and> image_calls (EEPROM u)
          = (image_calls (EEPROM s))[nat (hdr_newest (eeprom_hdr u)) := call_of f]
      \<and> same_store (with_fields f s)
            (u\<lparr>calls := calls s, num_calls := num_calls s, oldest := oldest s,
               newest := newest s, eeprom_hdr := eeprom_hdr s, EEPROM := EEPROM s\<rparr>)
      \<and> pktptr u = pktptr s"
proof -
  let ?s = "with_fields f s"
  from c have r: "ring_ok MAX_CALLS (num_calls s) (oldest s) (newest s)"
    and len: "length (calls s) = nat MAX_CALLS"
    by (simp_all add: calls_ok_def)
  from ring_append [OF r len, of "call_of f"] obtain n' o' w' where
    sp: "spec_append MAX_CALLS (num_calls s, oldest s, newest s) = (n', o', w')"
    and r': "ring_ok MAX_CALLS n' o' w'"
    and it: "ring_items MAX_CALLS n' o' ((calls s)[nat w' := call_of f])
             = last_n (nat MAX_CALLS) (ring_items MAX_CALLS (num_calls s) (oldest s) (calls s) @ [call_of f])"
    by blast
  define t where "t = ?s\<lparr>num_calls := n', oldest := o', newest := w',
        calls := (calls s)[nat w' := call_of f]\<rparr>"
  have "add_call ?s = Some t"
    using add_call_eq [of ?s n' o' w'] c sp
    by (simp add: parsed_with_fields t_def)
  moreover
  have w: "0 \<le> w'" "w' < MAX_CALLS"
    using ring_ok_newest [OF r'] by simp_all
  have tsel: "num_calls t = n'" "oldest t = o'" "newest t = w'"
    "calls t = (calls s)[nat w' := call_of f]" "eeprom_hdr t = eeprom_hdr s" "EEPROM t = EEPROM s"
    by (simp_all add: t_def)
  have ct: "calls_ok t"
    using r' len by (simp add: calls_ok_def tsel)
  have inb: "in_bounds (newest t) (calls t)"
    using w len by (simp add: in_bounds_def tsel nat_less_iff)
  have new_rec: "calls t ! nat (newest t) = call_of f"
    using w len by (simp add: tsel nat_less_iff)
  have at: "archive_ok t"
    using a by (simp add: archive_ok_def tsel)
  let ?h = "eeprom_hdr s"
  from a have ar: "ring_ok NUM_EEPROM_CALLS (hdr_num_calls ?h) (hdr_oldest ?h) (hdr_newest ?h)"
    and alen: "length (image_calls (EEPROM s)) = nat NUM_EEPROM_CALLS"
    and fl: "flash_hdr (EEPROM s) = ?h" "flash_calls (EEPROM s) = image_calls (EEPROM s)"
    by (simp_all add: archive_ok_def)
  from ring_append [OF ar alen, of "call_of f"] obtain n2 o2 w2 where
    sp2: "spec_append NUM_EEPROM_CALLS (hdr_num_calls ?h, hdr_oldest ?h, hdr_newest ?h) = (n2, o2, w2)"
    and r2: "ring_ok NUM_EEPROM_CALLS n2 o2 w2"
    and it2: "ring_items NUM_EEPROM_CALLS n2 o2 ((image_calls (EEPROM s))[nat w2 := call_of f])
             = last_n (nat NUM_EEPROM_CALLS)
                 (ring_items NUM_EEPROM_CALLS (hdr_num_calls ?h) (hdr_oldest ?h) (image_calls (EEPROM s)) @ [call_of f])"
    by blast
  define u where "u = t\<lparr>eeprom_hdr := ?h\<lparr>hdr_num_calls := n2, hdr_oldest := o2, hdr_newest := w2\<rparr>,
             EEPROM := (EEPROM s)\<lparr>image_hdr := ?h\<lparr>hdr_num_calls := n2, hdr_oldest := o2, hdr_newest := w2\<rparr>,
                        image_calls := (image_calls (EEPROM s))[nat w2 := call_of f],
                        flash_hdr := ?h\<lparr>hdr_num_calls := n2, hdr_oldest := o2, hdr_newest := w2\<rparr>,
                        flash_calls := (image_calls (EEPROM s))[nat w2 := call_of f],
                        commits := Suc (commits (EEPROM s))\<rparr>\<rparr>"
  have sp2t: "spec_append NUM_EEPROM_CALLS
      (hdr_num_calls (eeprom_hdr t), hdr_oldest (eeprom_hdr t), hdr_newest (eeprom_hdr t))
      = (n2, o2, w2)"
    using sp2 by (simp only: tsel(5))
  have "eeprom_add_call t = Some u"
    using eeprom_add_call_eq [OF at inb sp2t]
    by (simp only: new_rec tsel(5,6) u_def)
  moreover
  have usel: "num_calls u = n'" "oldest u = o'" "newest u = w'"
    "calls u = (calls s)[nat w' := call_of f]"
    "hdr_num_calls (eeprom_hdr u) = n2" "hdr_oldest (eeprom_hdr u) = o2"
    "hdr_newest (eeprom_hdr u) = w2"
    "image_calls (EEPROM u) = (image_calls (EEPROM s))[nat w2 := call_of f]"
    "flash_calls (EEPROM u) = (image_calls (EEPROM s))[nat w2 := call_of f]"
    "flash_hdr (EEPROM u) = eeprom_hdr u" "image_hdr (EEPROM u) = eeprom_hdr u"
    by (simp_all add: u_def tsel)
  have "calls_ok u"
    using r' len by (simp add: calls_ok_def usel)
  moreover have "archive_ok u"
    using r2 alen by (simp add: archive_ok_def usel)
  moreover have "held_calls u = last_n (nat MAX_CALLS) (held_calls s @ [call_of f])"
    using it by (simp add: held_calls_def usel)
  moreover have "archive_calls u = last_n (nat NUM_EEPROM_CALLS) (archive_calls s @ [call_of f])"
    using it2 by (simp add: archive_calls_def usel fl)
  moreover have "in_bounds (newest u) (calls u)" "calls u ! nat (newest u) = call_of f"
    using inb new_rec by (simp_all add: usel tsel)
  moreover have "0 < num_calls u"
    using sp r by (auto simp add: usel spec_append_def ring_ok_def Let_def split: if_splits)
  moreover have "commits (EEPROM u) = Suc (commits (EEPROM s))"
    "image_calls (EEPROM u) = (image_calls (EEPROM s))[nat (hdr_newest (eeprom_hdr u)) := call_of f]"
    by (simp_all add: u_def)
  moreover have "same_store (with_fields f s)
            (u\<lparr>calls := calls s, num_calls := num_calls s, oldest := oldest s,
               newest := newest s, eeprom_hdr := eeprom_hdr s, EEPROM := EEPROM s\<rparr>)"
    "pktptr u = pktptr s"
    by (cases f; simp add: same_store_def u_def t_def with_fields_def)+
  ultimately show ?thesis
    using sp sp2 by (simp add: usel)
qed

text \<open>
  Claim C1. From every state with both rings in order, every sequence of appends returns
  and leaves both rings in order: the count of the call list is at most \<open>MAX_CALLS\<close> and
  that of the archive at most \<open>NUM_EEPROM_CALLS\<close>, and each store holds, from the oldest
  to the newest, the last \<open>C\<close> of the records it held followed by the appended records,
  for its capacity \<open>C\<close>. From empty stores these are the last \<open>C\<close> records appended.
  Every further append changes the count and the two indices of either store as the
  specification says: \<open>spec_append\<close>.
\<close>

theorem ring_store_appends:
  assumes "calls_ok s" and "archive_ok s"
  shows "\<exists>s'. add_calls fs s = Some s' \<and> calls_ok s' \<and> archive_ok s'
      \<and> num_calls s' \<le> MAX_CALLS \<and> hdr_num_calls (eeprom_hdr s') \<le> NUM_EEPROM_CALLS
      \<and> held_calls s' = last_n (nat MAX_CALLS) (held_calls s @ map call_of fs)
      \<and> archive_calls s' = last_n (nat NUM_EEPROM_CALLS) (archive_calls s @ map call_of fs)
      \<and> (\<forall>f. \<exists>t u. add_call (with_fields f s') = Some t \<and> eeprom_add_call t = Some u
            \<and> (num_calls u, oldest u, newest u)
                = spec_append MAX_CALLS (num_calls s', oldest s', newest s')
            \<and> (hdr_num_calls (eeprom_hdr u), hdr_oldest (eeprom_hdr u), hdr_newest (eeprom_hdr u))
                = spec_append NUM_EEPROM_CALLS
                    (hdr_num_calls (eeprom_hdr s'), hdr_oldest (eeprom_hdr s'),
                     hdr_newest (eeprom_hdr s')))"
  using assms
proof (induction fs arbitrary: s)
  case Nil
  have "num_calls s \<le> MAX_CALLS" "hdr_num_calls (eeprom_hdr s) \<le> NUM_EEPROM_CALLS"
    using Nil by (simp_all add: calls_ok_def archive_ok_def ring_ok_def)
  moreover have "nat (num_calls s) - nat MAX_CALLS = 0"
    "nat (hdr_num_calls (flash_hdr (EEPROM s))) - nat NUM_EEPROM_CALLS = 0"
    using Nil by (auto simp add: calls_ok_def archive_ok_def ring_ok_def)
  then have "last_n (nat MAX_CALLS) (held_calls s) = held_calls s"
    "last_n (nat NUM_EEPROM_CALLS) (archive_calls s) = archive_calls s"
    by (simp_all add: last_n_def held_calls_def archive_calls_def)
  moreover have "\<exists>t u. add_call (with_fields f s) = Some t \<and> eeprom_add_call t = Some u
            \<and> (num_calls u, oldest u, newest u)
                = spec_append MAX_CALLS (num_calls s, oldest s, newest s)
            \<and> (hdr_num_calls (eeprom_hdr u), hdr_oldest (eeprom_hdr u), hdr_newest (eeprom_hdr u))
                = spec_append NUM_EEPROM_CALLS
                    (hdr_num_calls (eeprom_hdr s), hdr_oldest (eeprom_hdr s),
                     hdr_newest (eeprom_hdr s))" for f
    using append_step [OF Nil, of f] by blast
  ultimately show ?case
    using Nil by simp
next
  case (Cons f fs)
  from append_step [OF Cons.prems, of f] obtain t u where
    st: "add_call (with_fields f s) = Some t" "eeprom_add_call t = Some u"
    and ok: "calls_ok u" "archive_ok u"
    and h: "held_calls u = last_n (nat MAX_CALLS) (held_calls s @ [call_of f])"
       "archive_calls u = last_n (nat NUM_EEPROM_CALLS) (archive_calls s @ [call_of f])"
    by blast
  from Cons.IH [OF ok] obtain s' where
    s': "add_calls fs u = Some s'" "calls_ok s'" "archive_ok s'"
      "num_calls s' \<le> MAX_CALLS" "hdr_num_calls (eeprom_hdr s') \<le> NUM_EEPROM_CALLS"
      "held_calls s' = last_n (nat MAX_CALLS) (held_calls u @ map call_of fs)"
      "archive_calls s' = last_n (nat NUM_EEPROM_CALLS) (archive_calls u @ map call_of fs)"
    and step: "\<forall>f. \<exists>t u. add_call (with_fields f s') = Some t \<and> eeprom_add_call t = Some u
            \<and> (num_calls u, oldest u, newest u)
                = spec_append MAX_CALLS (num_calls s', oldest s', newest s')
            \<and> (hdr_num_calls (eeprom_hdr u), hdr_oldest (eeprom_hdr u), hdr_newest (eeprom_hdr u))
                = spec_append NUM_EEPROM_CALLS
                    (hdr_num_calls (eeprom_hdr s'), hdr_oldest (eeprom_hdr s'),
                     hdr_newest (eeprom_hdr s'))"
    by blast
  have "add_calls (f # fs) s = Some s'"
    using st s'(1) by simp
  moreover have "held_calls s' = last_n (nat MAX_CALLS) (held_calls s @ map call_of (f # fs))"
    using s'(6) h(1) last_n_last_n [of "nat MAX_CALLS" "held_calls s @ [call_of f]" "map call_of fs"]
    by simp
  moreover have "archive_calls s' = last_n (nat NUM_EEPROM_CALLS) (archive_calls s @ map call_of (f # fs))"
    using s'(7) h(2) last_n_last_n [of "nat NUM_EEPROM_CALLS" "archive_calls s @ [call_of f]" "map call_of fs"]
    by simp
  ultimately show ?case
    using s'(2-5) step by blast
qed

theorem ring_store_appends_witness:
  "calls_ok power_on \<and> archive_ok power_on
   \<and> (\<exists>s'. add_calls sample_calls power_on = Some s'
         \<and> num_calls s' \<le> MAX_CALLS
         \<and> held_calls s' = map call_of (drop 1 sample_calls)
         \<and> archive_calls s' = map call_of (drop 127 sample_calls))"
proof -
  have c: "calls_ok power_on"
    by (simp add: calls_ok_def ring_ok_def power_on_def MAX_CALLS_def)
  have a: "archive_ok power_on"
    by (simp add: archive_ok_def ring_ok_def power_on_def zero_hdr_def NUM_EEPROM_CALLS_eq)
  have h: "held_calls power_on = []" "archive_calls power_on = []"
    by (simp_all add: held_calls_def archive_calls_def ring_items_def power_on_def zero_hdr_def)
  have l: "length sample_calls = 201"
    by (simp add: sample_calls_def)
  have d: "last_n (nat MAX_CALLS) (map call_of sample_calls) = map call_of (drop 1 sample_calls)"
    "last_n (nat NUM_EEPROM_CALLS) (map call_of sample_calls) = map call_of (drop 127 sample_calls)"
    by (simp_all add: last_n_def l MAX_CALLS_def NUM_EEPROM_CALLS_eq drop_map)
  from ring_store_appends [OF c a, of sample_calls] obtain s' where
    "add_calls sample_calls power_on = Some s'" "num_calls s' \<le> MAX_CALLS"
    "held_calls s' = map call_of (drop 1 sample_calls)"
    "archive_calls s' = map call_of (drop 127 sample_calls)"
    by (auto simp add: h d)
  with c a show ?thesis by blast
qed

subsection \<open>The duration of a call\<close>

lemma scan_calls_hit:
  assumes "in_bounds ndx (calls s)" and "rec_phoneline (calls s ! nat ndx) = line"
  shows "scan_calls ndx line secs s = Some (set_seconds ndx secs s)"
proof (cases "displayed s = ndx")
  case True
  let ?s1 = "s\<lparr>calls := (calls s)[nat ndx := (calls s ! nat ndx)\<lparr>rec_seconds := secs\<rparr>]\<rparr>"
  have 1: "scan_calls ndx line secs s
      = Some (?s1\<lparr>displayed := ndx, displayed_age := (if ndx = newest ?s1 then 1 else displayed_age ?s1)\<rparr>)"
    using assms True by (subst scan_calls.simps) (simp add: display_call_def in_bounds_def Let_def)
  have 2: "?s1\<lparr>displayed := ndx, displayed_age := (if ndx = newest ?s1 then 1 else displayed_age ?s1)\<rparr>
        = set_seconds ndx secs s"
    by (rule state.equality) (simp_all add: set_seconds_def True)
  show ?thesis by (simp only: 1 2)
next
  case False
  with assms show ?thesis
    by (subst scan_calls.simps) (simp add: set_seconds_def Let_def)
qed

lemma scan_calls_miss_oldest:
  assumes "in_bounds (oldest s) (calls s)" and "rec_phoneline (calls s ! nat (oldest s)) \<noteq> line"
  shows "scan_calls (oldest s) line secs s = Some s"
  using assms by (subst scan_calls.simps) simp

lemma scan_calls_next:
  assumes "in_bounds ndx (calls s)" and "rec_phoneline (calls s ! nat ndx) \<noteq> line"
    and "ndx \<noteq> oldest s"
  shows "scan_calls ndx line secs s
       = scan_calls (if ndx - 1 < 0 then MAX_CALLS - 1 else ndx - 1) line secs s"
  using assms by (subst scan_calls.simps) simp

lemma step_back_mod:
  fixes C :: int
  assumes "0 < C"
  shows "(if (a mod C) - 1 < 0 then C - 1 else (a mod C) - 1) = (a - 1) mod C"
proof (cases "a mod C = 0")
  case True
  then have "C dvd a" by (simp add: dvd_eq_mod_eq_0)
  then obtain q where "a = C * q" ..
  then have "a - 1 = (C - 1) + C * (q - 1)"
    by (simp add: algebra_simps)
  then have "(a - 1) mod C = (C - 1) mod C"
    by (metis mod_mult_self2)
  with assms True show ?thesis by (simp add: zmod_minus1)
next
  case False
  have b: "0 \<le> a mod C" "a mod C < C"
    using assms by simp_all
  with False have "0 \<le> a mod C - 1" "a mod C - 1 < C" by linarith+
  then have "(a mod C - 1) mod C = a mod C - 1"
    by simp
  moreover have "(a mod C - 1) mod C = (a - 1) mod C"
    by (simp add: mod_simps)
  ultimately show ?thesis
    using b False by simp
qed

lemma scan_calls_recency:
  assumes ok: "calls_ok s" and k: "k < nat (num_calls s)"
  shows "scan_calls ((newest s - int k) mod MAX_CALLS) line secs s
       = Some (case find (\<lambda>i. rec_phoneline (calls s ! nat i) = line)
                     (map (\<lambda>i. (newest s - int i) mod MAX_CALLS) [k..<nat (num_calls s)]) of
                 None \<Rightarrow> s
               | Some j \<Rightarrow> set_seconds j secs s)"
  using k
proof (induction "nat (num_calls s) - 1 - k" arbitrary: k)
  case 0
  from ok have r: "ring_ok MAX_CALLS (num_calls s) (oldest s) (newest s)"
    and len: "length (calls s) = nat MAX_CALLS"
    by (simp_all add: calls_ok_def)
  from 0 have n: "0 < num_calls s" and kn: "int k = num_calls s - 1" by linarith+
  with r have new: "newest s = (oldest s + num_calls s - 1) mod MAX_CALLS"
    and old: "0 \<le> oldest s" "oldest s < MAX_CALLS"
    by (simp_all add: ring_ok_def)
  have "(newest s - (num_calls s - 1)) mod MAX_CALLS = oldest s"
    unfolding new using old by (simp add: mod_simps)
  then have ndx: "(newest s - int k) mod MAX_CALLS = oldest s"
    by (simp only: kn)
  have "Suc k = nat (num_calls s)"
    using kn n by linarith
  then have upt: "[k..<nat (num_calls s)] = [k]"
    by (simp add: upt_conv_Cons)
  have inb: "in_bounds (oldest s) (calls s)"
    using old len by (simp add: in_bounds_def nat_less_iff)
  show ?case
  proof (cases "rec_phoneline (calls s ! nat (oldest s)) = line")
    case True
    from scan_calls_hit [OF inb True] True show ?thesis
      unfolding upt ndx by (simp add: ndx)
  next
    case False
    from scan_calls_miss_oldest [OF inb False] False show ?thesis
      unfolding upt ndx by (simp add: ndx)
  qed
next
  case (Suc d)
  from ok have r: "ring_ok MAX_CALLS (num_calls s) (oldest s) (newest s)"
    and len: "length (calls s) = nat MAX_CALLS"
    by (simp_all add: calls_ok_def)
  from Suc.prems have n: "0 < num_calls s" by simp
  with r have new: "newest s = (oldest s + num_calls s - 1) mod MAX_CALLS"
    and old: "0 \<le> oldest s" "oldest s < MAX_CALLS" and C: "0 < MAX_CALLS"
    and nC: "num_calls s \<le> MAX_CALLS"
    by (simp_all add: ring_ok_def)
  from Suc.hyps(2) have k: "Suc k < nat (num_calls s)" "d = nat (num_calls s) - 1 - Suc k"
    "int k + 1 < num_calls s"
    by linarith+
  let ?ndx = "(newest s - int k) mod MAX_CALLS"
  have b: "0 \<le> ?ndx" "?ndx < MAX_CALLS"
    using C by simp_all
  then have inb: "in_bounds ?ndx (calls s)"
    using len by (simp add: in_bounds_def nat_less_iff)
  have "?ndx = (oldest s + (num_calls s - 1 - int k)) mod MAX_CALLS"
    unfolding new by (simp add: mod_simps algebra_simps)
  moreover have "(oldest s + 0) mod MAX_CALLS \<noteq> (oldest s + (num_calls s - 1 - int k)) mod MAX_CALLS"
    using k nC by (intro mod_shift_neq) auto
  ultimately have neq: "?ndx \<noteq> oldest s"
    using old by simp
  have "newest s - int k - 1 = newest s - int (Suc k)"
    by simp
  with step_back_mod [OF C, of "newest s - int k"]
  have nxt: "(if ?ndx - 1 < 0 then MAX_CALLS - 1 else ?ndx - 1)
      = (newest s - int (Suc k)) mod MAX_CALLS"
    by (simp only:)
  have upt: "[k..<nat (num_calls s)] = k # [Suc k..<nat (num_calls s)]"
    using k by (simp add: upt_conv_Cons)
  note IH = Suc.hyps(1) [OF k(2) k(1)]
  show ?case
  proof (cases "rec_phoneline (calls s ! nat ?ndx) = line")
    case True
    from scan_calls_hit [OF inb True] True show ?thesis
      unfolding upt by simp
  next
    case False
    from scan_calls_next [OF inb False neq] IH False show ?thesis
      unfolding upt nxt by simp
  qed
qed

lemma recency_held:
  assumes ok: "calls_ok s"
  shows "map (\<lambda>i. calls s ! nat i) (recency s) = rev (held_calls s)"
proof (rule nth_equalityI)
  show "length (map (\<lambda>i. calls s ! nat i) (recency s)) = length (rev (held_calls s))"
    by (simp add: recency_def held_calls_def)
next
  fix i assume "i < length (map (\<lambda>i. calls s ! nat i) (recency s))"
  then have i: "i < nat (num_calls s)" by (simp add: recency_def)
  then have n: "0 < num_calls s" by simp
  from ok have r: "ring_ok MAX_CALLS (num_calls s) (oldest s) (newest s)"
    by (simp add: calls_ok_def)
  with n have new: "newest s = (oldest s + num_calls s - 1) mod MAX_CALLS"
    by (simp add: ring_ok_def)
  have "(newest s - int i) mod MAX_CALLS = (oldest s + (num_calls s - (1 + int i))) mod MAX_CALLS"
    unfolding new by (simp add: mod_simps algebra_simps)
  moreover have "int (nat (num_calls s) - Suc i) = num_calls s - (1 + int i)"
    using i by simp
  ultimately show "map (\<lambda>i. calls s ! nat i) (recency s) ! i = rev (held_calls s) ! i"
    using i by (simp add: recency_def held_calls_def rev_nth ring_items_nth)
qed

lemma update_duration_scan:
  assumes ok: "calls_ok s" and n: "0 < num_calls s" and sc: "sscanf_d (duration s) = Some secs"
  shows "update_duration s =
           Some (case find (\<lambda>i. rec_phoneline (calls s ! nat i) = parse_phoneline s) (recency s) of
                   None \<Rightarrow> s
                 | Some j \<Rightarrow> set_seconds j secs s)"
proof -
  from n have d: "0 < nat (num_calls s)" by simp
  from ok have "ring_ok MAX_CALLS (num_calls s) (oldest s) (newest s)"
    by (simp add: calls_ok_def)
  from ring_ok_newest [OF this] have m: "newest s mod MAX_CALLS = newest s"
    by simp
  from scan_calls_recency [OF ok d, of "parse_phoneline s" secs]
  have "scan_calls (newest s) (parse_phoneline s) secs s =
      Some (case find (\<lambda>i. rec_phoneline (calls s ! nat i) = parse_phoneline s) (recency s) of
                   None \<Rightarrow> s
                 | Some j \<Rightarrow> set_seconds j secs s)"
    by (simp add: recency_def m)
  with n sc show ?thesis
    by (simp add: update_duration_def)
qed

text \<open>
  Claim C2. In a state with the call list in order and not empty, and a duration field
  that scans as a number, \<open>update_duration\<close> returns. It visits the indices of
  \<open>recency\<close>, which are those of the records held, from the newest back to the oldest,
  and sets the duration of the first of them whose phone line is the line of the packet;
  where no record held has that line, the state is unchanged.
\<close>

theorem update_duration_nearest:
  assumes ok: "calls_ok s" and n: "0 < num_calls s" and sc: "sscanf_d (duration s) = Some secs"
  shows "update_duration s =
           Some (case find (\<lambda>i. rec_phoneline (calls s ! nat i) = parse_phoneline s) (recency s) of
                   None \<Rightarrow> s
                 | Some j \<Rightarrow> set_seconds j secs s)
         \<and> map (\<lambda>i. calls s ! nat i) (recency s) = rev (held_calls s)"
  using update_duration_scan [OF assms] recency_held [OF ok] by (rule conjI)

theorem update_duration_nearest_witness:
  "calls_ok three_calls_state \<and> 0 < num_calls three_calls_state
   \<and> sscanf_d (duration three_calls_state) = Some 123
   \<and> update_duration three_calls_state = Some (set_seconds 1 123 three_calls_state)"
proof -
  have c: "calls_ok three_calls_state"
    by (simp add: calls_ok_def ring_ok_def three_calls_state_def power_on_def MAX_CALLS_def)
  have n: "0 < num_calls three_calls_state"
    by (simp add: three_calls_state_def power_on_def)
  have d: "sscanf_d (duration three_calls_state) = Some 123"
    by (simp add: three_calls_state_def power_on_def sscanf_d_def c_str_def scan_int_def
        isdigit_def isspace_def NUL_def)
  have p: "parse_phoneline three_calls_state = 2"
    by (simp add: parse_phoneline_def line_index_def three_calls_state_def power_on_def
        sscanf_d_def c_str_def scan_int_def isdigit_def isspace_def NUL_def MAX_LINES_def)
  have r: "recency three_calls_state = [2, 1, 0]"
    by (simp add: recency_def three_calls_state_def power_on_def MAX_CALLS_def upt_rec)
  have k: "rec_phoneline (calls three_calls_state ! 2) = 0"
    "rec_phoneline (calls three_calls_state ! Suc 0) = 2"
    by (simp_all add: three_calls_state_def power_on_def call_b_def call_c_def zero_call_def)
  from update_duration_nearest [OF c n d] have
    "update_duration three_calls_state = Some (set_seconds 1 123 three_calls_state)"
    by (simp add: p r k)
  with c n d show ?thesis by blast
qed

subsection \<open>The conditions of the main loop\<close>

lemma same_store_refl [simp]: "same_store s s"
  by (simp add: same_store_def)

lemma same_store_trans: "same_store s t \<Longrightarrow> same_store t u \<Longrightarrow> same_store s u"
  by (simp add: same_store_def)

lemma same_store_pktptr [simp]: "same_store s (s\<lparr>pktptr := p\<rparr>)"
  by (simp add: same_store_def)

lemma same_store_set_field: "same_store s t \<Longrightarrow> same_store s (set_field d v t)"
  by (cases d) (simp_all add: same_store_def)

lemma match_loop_eq:
  "p + length lit \<le> length pkt \<Longrightarrow>
   match_loop lit pkt p
     = Some (if take (length lit) (drop p pkt) = lit then Some (p + length lit) else None)"
proof (induction lit arbitrary: p)
  case Nil
  then show ?case by simp
next
  case (Cons c lit)
  then have p: "p < length pkt" and q: "Suc p + length lit \<le> length pkt"
    by simp_all
  from p have "drop p pkt = pkt ! p # drop (Suc p) pkt"
    by (simp add: Cons_nth_drop_Suc)
  then have "take (length (c # lit)) (drop p pkt) = pkt ! p # take (length lit) (drop (Suc p) pkt)"
    by simp
  with p Cons.IH [OF q] show ?case
    by auto
qed

lemma advances_test: "advances 0 (test b)"
  by (simp add: advances_def test_def)

lemma advances_match: "advances (length lit) (match lit)"
  by (auto simp add: advances_def match_def match_loop_eq)

lemma advances_copy: "advances len (copy d len)"
  by (auto simp add: advances_def copy_def copy_loop_eq same_store_set_field)

lemma advances_negate:
  assumes "advances n c"
  shows "advances n (negate c)"
  unfolding advances_def
proof (intro allI impI)
  fix s :: state
  assume "pktptr s + n \<le> length (packet s)" "pktlen s \<le> int (length (packet s))"
  with assms obtain r s' where "c s = Some (r, s')" "pktptr s \<le> pktptr s'"
    "pktptr s' \<le> pktptr s + n" "same_store s s'"
    unfolding advances_def by blast
  then show "\<exists>r s'. negate c s = Some (r, s') \<and> pktptr s \<le> pktptr s'
      \<and> pktptr s' \<le> pktptr s + n \<and> same_store s s'"
    by (simp add: negate_def)
qed

lemma advances_and_also:
  assumes a: "advances n a" and b: "advances m b"
  shows "advances (n + m) (and_also a b)"
  unfolding advances_def
proof (intro allI impI)
  fix s :: state
  assume len: "pktptr s + (n + m) \<le> length (packet s)"
    and pl: "pktlen s \<le> int (length (packet s))"
  from len have "pktptr s + n \<le> length (packet s)" by simp
  with a pl obtain r s' where
    1: "a s = Some (r, s')" "pktptr s \<le> pktptr s'" "pktptr s' \<le> pktptr s + n" "same_store s s'"
    unfolding advances_def by blast
  show "\<exists>r s'. and_also a b s = Some (r, s') \<and> pktptr s \<le> pktptr s'
      \<and> pktptr s' \<le> pktptr s + (n + m) \<and> same_store s s'"
  proof (cases r)
    case False
    with 1 show ?thesis by (auto simp add: and_also_def)
  next
    case True
    from 1 have eq: "packet s' = packet s" "pktlen s' = pktlen s"
      by (simp_all add: same_store_def)
    with 1 len pl have "pktptr s' + m \<le> length (packet s')" "pktlen s' \<le> int (length (packet s'))"
      by simp_all
    with b obtain r2 s2 where
      2: "b s' = Some (r2, s2)" "pktptr s' \<le> pktptr s2" "pktptr s2 \<le> pktptr s' + m" "same_store s' s2"
      unfolding advances_def by blast
    with 1 True same_store_trans [OF 1(4) 2(4)] show ?thesis
      by (simp add: and_also_def)
  qed
qed

lemma advances_or_else:
  assumes a: "advances n a" and b: "advances m b"
  shows "advances (n + m) (or_else a b)"
  unfolding advances_def
proof (intro allI impI)
  fix s :: state
  assume len: "pktptr s + (n + m) \<le> length (packet s)"
    and pl: "pktlen s \<le> int (length (packet s))"
  from len have "pktptr s + n \<le> length (packet s)" by simp
  with a pl obtain r s' where
    1: "a s = Some (r, s')" "pktptr s \<le> pktptr s'" "pktptr s' \<le> pktptr s + n" "same_store s s'"
    unfolding advances_def by blast
  show "\<exists>r s'. or_else a b s = Some (r, s') \<and> pktptr s \<le> pktptr s'
      \<and> pktptr s' \<le> pktptr s + (n + m) \<and> same_store s s'"
  proof (cases r)
    case True
    with 1 show ?thesis by (auto simp add: or_else_def)
  next
    case False
    from 1 have eq: "packet s' = packet s" "pktlen s' = pktlen s"
      by (simp_all add: same_store_def)
    with 1 len pl have "pktptr s' + m \<le> length (packet s')" "pktlen s' \<le> int (length (packet s'))"
      by simp_all
    with b obtain r2 s2 where
      2: "b s' = Some (r2, s2)" "pktptr s' \<le> pktptr s2" "pktptr s2 \<le> pktptr s' + m" "same_store s' s2"
      unfolding advances_def by blast
    with 1 False same_store_trans [OF 1(4) 2(4)] show ?thesis
      by (simp add: or_else_def)
  qed
qed

lemmas advances_intros =
  advances_test advances_match advances_copy advances_negate advances_and_also advances_or_else

lemma advances_bad_preamble: "advances 24 bad_preamble"
proof -
  have "advances (0 + (length ''^^<U>'' + (6 + (length ''<S>'' + (6 + (length ''$'' + (2 + length '' '')))))))
      bad_preamble"
    unfolding bad_preamble_def by (intro advances_intros)
  then show ?thesis by simp
qed

lemma advances_boot_notice: "advances 1 boot_notice"
proof -
  have "advances (0 + length ''V'') boot_notice"
    unfolding boot_notice_def by (intro advances_intros)
  then show ?thesis by simp
qed

lemma advances_start_call: "advances 62 start_call"
proof -
  have "advances (0 + (0 + (length ''I S '' + (4 + ((length '' G '' + length '' B '')
      + (length ''A'' + (1 + (length '' '' + (15 + (15 + 15))))))))))
      start_call"
    unfolding start_call_def by (intro advances_intros)
  then show ?thesis by simp
qed

lemma advances_end_call: "advances 8 end_call"
proof -
  have "advances (0 + (0 + (length ''I E '' + 4))) end_call"
    unfolding end_call_def by (intro advances_intros)
  then show ?thesis by simp
qed

lemma advancesD:
  assumes "advances n c" "pktptr s + n \<le> length (packet s)" "pktlen s \<le> int (length (packet s))"
  obtains r s' where "c s = Some (r, s')" "pktptr s \<le> pktptr s'" "pktptr s' \<le> pktptr s + n"
    "same_store s s'"
  using assms unfolding advances_def by blast

lemma select_branch_total:
  assumes len: "pktptr s + 95 \<le> length (packet s)" and pl: "pktlen s \<le> int (length (packet s))"
  shows "\<exists>b s'. select_branch s = Some (b, s') \<and> same_store s s'"
proof -
  from len have "pktptr s + 24 \<le> length (packet s)" by simp
  from advancesD [OF advances_bad_preamble this pl] obtain r1 s1 where
    1: "bad_preamble s = Some (r1, s1)" "pktptr s1 \<le> pktptr s + 24" "same_store s s1"
    by blast
  then have e1: "packet s1 = packet s" "pktlen s1 = pktlen s"
    by (simp_all add: same_store_def)
  with 1 len pl have "pktptr s1 + 1 \<le> length (packet s1)" "pktlen s1 \<le> int (length (packet s1))"
    by simp_all
  from advancesD [OF advances_boot_notice this] obtain r2 s2 where
    2: "boot_notice s1 = Some (r2, s2)" "pktptr s2 \<le> pktptr s1 + 1" "same_store s1 s2"
    by blast
  then have e2: "packet s2 = packet s1" "pktlen s2 = pktlen s1"
    by (simp_all add: same_store_def)
  with 1 2 e1 len pl have "pktptr s2 + 62 \<le> length (packet s2)" "pktlen s2 \<le> int (length (packet s2))"
    by simp_all
  from advancesD [OF advances_start_call this] obtain r3 s3 where
    3: "start_call s2 = Some (r3, s3)" "pktptr s3 \<le> pktptr s2 + 62" "same_store s2 s3"
    by blast
  then have e3: "packet s3 = packet s2" "pktlen s3 = pktlen s2"
    by (simp_all add: same_store_def)
  with 1 2 3 e1 e2 len pl have "pktptr s3 + 8 \<le> length (packet s3)" "pktlen s3 \<le> int (length (packet s3))"
    by simp_all
  from advancesD [OF advances_end_call this] obtain r4 s4 where
    4: "end_call s3 = Some (r4, s4)" "same_store s3 s4"
    by blast
  have t2: "same_store s s2" using 1(3) 2(3) by (rule same_store_trans)
  have t3: "same_store s s3" using t2 3(3) by (rule same_store_trans)
  have t4: "same_store s s4" using t3 4(2) by (rule same_store_trans)
  show ?thesis
    using 1(1,3) 2(1) 3(1) 4(1) t2 t3 t4 by (simp add: select_branch_def)
qed

subsection \<open>The branches and the archive\<close>

lemma with_own_fields [simp]:
  "with_fields (phoneline s, datetime s, phonenum s, callername s) s = s"
  by (simp add: with_fields_def)

lemma list_all_update:
  "list_all P xs \<Longrightarrow> P x \<Longrightarrow> list_all P (xs[i := x])"
  using set_update_subset_insert [of xs i x] by (auto simp add: list_all_iff)

lemma calls_ok_display [simp]:
  "calls_ok (s\<lparr>displayed := a, displayed_age := b\<rparr>) = calls_ok s"
  by (simp add: calls_ok_def)

lemma archive_ok_display [simp]:
  "archive_ok (s\<lparr>displayed := a, displayed_age := b\<rparr>) = archive_ok s"
  by (simp add: archive_ok_def)

lemma calls_ok_badpacket [simp]: "calls_ok (badpacket ty s) = calls_ok s"
  by (simp add: calls_ok_def badpacket_def)

lemma archive_ok_badpacket [simp]: "archive_ok (badpacket ty s) = archive_ok s"
  by (simp add: archive_ok_def badpacket_def)

lemma set_seconds_frame [simp]:
  "EEPROM (set_seconds j secs s) = EEPROM s" "eeprom_hdr (set_seconds j secs s) = eeprom_hdr s"
  "packet (set_seconds j secs s) = packet s"
  by (simp_all add: set_seconds_def)

lemma calls_ok_set_seconds [simp]: "calls_ok (set_seconds j secs s) = calls_ok s"
  by (simp add: calls_ok_def set_seconds_def)

lemma archive_ok_set_seconds [simp]: "archive_ok (set_seconds j secs s) = archive_ok s"
  by (simp add: archive_ok_def set_seconds_def)

lemma show_newest_call_ok:
  assumes "calls_ok s"
  shows "show_newest_call s
       = Some (if 0 < num_calls s then s\<lparr>displayed := newest s, displayed_age := 1\<rparr> else s)"
proof -
  from assms have "ring_ok MAX_CALLS (num_calls s) (oldest s) (newest s)"
    and len: "length (calls s) = nat MAX_CALLS"
    by (simp_all add: calls_ok_def)
  from ring_ok_newest [OF this(1)] len have "in_bounds (newest s) (calls s)"
    by (simp add: in_bounds_def nat_less_iff)
  then show ?thesis
    by (simp add: show_newest_call_def display_call_def)
qed

lemma update_duration_cases:
  assumes "calls_ok s"
  shows "update_duration s = Some s \<or> (\<exists>j secs. update_duration s = Some (set_seconds j secs s))"
proof (cases "sscanf_d (duration s)")
  case None
  then show ?thesis by (simp add: update_duration_def)
next
  case (Some secs)
  show ?thesis
  proof (cases "0 < num_calls s")
    case True
    from update_duration_scan [OF assms True Some] show ?thesis
      by (auto split: option.splits)
  next
    case False
    with Some show ?thesis by (simp add: update_duration_def)
  qed
qed

lemma run_start_call:
  assumes c: "calls_ok s" and a: "archive_ok s"
  shows "\<exists>s'. run_branch Start_call s = Some s' \<and> calls_ok s' \<and> archive_ok s'
     \<and> in_bounds (newest s') (calls s')
     \<and> calls s' ! nat (newest s') = call_of (phoneline s, datetime s, phonenum s, callername s)
     \<and> packet s' = packet s
     \<and> commits (EEPROM s') = Suc (commits (EEPROM s))
     \<and> image_calls (EEPROM s')
         = (image_calls (EEPROM s))[nat (hdr_newest (eeprom_hdr s')) :=
              call_of (phoneline s, datetime s, phonenum s, callername s)]"
proof -
  let ?f = "(phoneline s, datetime s, phonenum s, callername s)"
  from append_step [OF c a, of ?f] obtain t u where
    "add_call (with_fields ?f s) = Some t \<and> eeprom_add_call t = Some u
      \<and> calls_ok u \<and> archive_ok u
      \<and> (num_calls u, oldest u, newest u)
          = spec_append MAX_CALLS (num_calls s, oldest s, newest s)
      \<and> (hdr_num_calls (eeprom_hdr u), hdr_oldest (eeprom_hdr u), hdr_newest (eeprom_hdr u))
          = spec_append NUM_EEPROM_CALLS
              (hdr_num_calls (eeprom_hdr s), hdr_oldest (eeprom_hdr s), hdr_newest (eeprom_hdr s))
      \<and> held_calls u = last_n (nat MAX_CALLS) (held_calls s @ [call_of ?f])
      \<and> archive_calls u = last_n (nat NUM_EEPROM_CALLS) (archive_calls s @ [call_of ?f])
      \<and> in_bounds (newest u) (calls u) \<and> calls u ! nat (newest u) = call_of ?f
      \<and> 0 < num_calls u
      \<and> commits (EEPROM u) = Suc (commits (EEPROM s))
      \<and> image_calls (EEPROM u)
          = (image_calls (EEPROM s))[nat (hdr_newest (eeprom_hdr u)) := call_of ?f]
      \<and> same_store (with_fields ?f s)
            (u\<lparr>calls := calls s, num_calls := num_calls s, oldest := oldest s,
               newest := newest s, eeprom_hdr := eeprom_hdr s, EEPROM := EEPROM s\<rparr>)
      \<and> pktptr u = pktptr s"
    by (elim exE)
  then have st: "add_call s = Some t" "eeprom_add_call t = Some u"
    and ok: "calls_ok u" "archive_ok u"
    and new: "in_bounds (newest u) (calls u)" "calls u ! nat (newest u) = call_of ?f"
      "0 < num_calls u"
    and ee: "commits (EEPROM u) = Suc (commits (EEPROM s))"
      "image_calls (EEPROM u) = (image_calls (EEPROM s))[nat (hdr_newest (eeprom_hdr u)) := call_of ?f]"
    and fr: "same_store s
            (u\<lparr>calls := calls s, num_calls := num_calls s, oldest := oldest s,
               newest := newest s, eeprom_hdr := eeprom_hdr s, EEPROM := EEPROM s\<rparr>)"
    by simp_all
  from fr have pk: "packet u = packet s" by (simp add: same_store_def)
  have "run_branch Start_call s = Some (u\<lparr>displayed := newest u, displayed_age := 1\<rparr>)"
    using st show_newest_call_ok [OF ok(1)] new(3) by (simp add: run_branch_def)
  with ok new ee pk show ?thesis
    by simp
qed


lemma run_branch_total:
  assumes c: "calls_ok s" and a: "archive_ok s"
  shows "\<exists>s'. run_branch b s = Some s' \<and> calls_ok s' \<and> archive_ok s' \<and> packet s' = packet s
     \<and> (if b = Start_call
         then commits (EEPROM s') = Suc (commits (EEPROM s))
            \<and> image_calls (EEPROM s')
                = (image_calls (EEPROM s))[nat (hdr_newest (eeprom_hdr s')) := calls s' ! nat (newest s')]
            \<and> rec_seconds (calls s' ! nat (newest s')) = 0
         else EEPROM s' = EEPROM s \<and> eeprom_hdr s' = eeprom_hdr s)"
proof (cases b)
  case Malformed_preamble
  with c a show ?thesis by (simp add: run_branch_def) (simp add: badpacket_def)
next
  case Boot_notice
  with c a show_newest_call_ok [OF c] show ?thesis by (simp add: run_branch_def)
next
  case Start_call
  from run_start_call [OF c a] obtain s' where
    "run_branch Start_call s = Some s'" "calls_ok s'" "archive_ok s'"
    "calls s' ! nat (newest s') = call_of (phoneline s, datetime s, phonenum s, callername s)"
    "packet s' = packet s" "commits (EEPROM s') = Suc (commits (EEPROM s))"
    "image_calls (EEPROM s')
         = (image_calls (EEPROM s))[nat (hdr_newest (eeprom_hdr s')) :=
              call_of (phoneline s, datetime s, phonenum s, callername s)]"
    by blast
  with Start_call show ?thesis
    by (simp add: call_of_def)
next
  case End_call
  from update_duration_cases [OF c] c a show ?thesis
    by (auto simp add: run_branch_def End_call)
next
  case Unhandled
  with c a show ?thesis by (simp add: run_branch_def) (simp add: badpacket_def)
qed

lemma received_facts:
  "pktptr (received d s) = 0"
  "length (packet s) = MAX_PACKET \<Longrightarrow> length (packet (received d s)) = MAX_PACKET"
  "pktlen (received d s) = int (min (length d) MAX_PACKET)"
  "calls_ok (received d s) = calls_ok s" "archive_ok (received d s) = archive_ok s"
  "EEPROM (received d s) = EEPROM s" "eeprom_hdr (received d s) = eeprom_hdr s"
  "calls (received d s) = calls s" "newest (received d s) = newest s"
  "num_calls (received d s) = num_calls s" "oldest (received d s) = oldest s"
  by (simp_all add: received_def read_packet_def Let_def calls_ok_def archive_ok_def)

lemma loop_packet_total:
  assumes ok: "state_ok s"
  shows "\<exists>s'. loop_packet d s = Some s' \<and> state_ok s'
     \<and> (if d \<noteq> [] \<and> branch_of (received d s) = Some Start_call
         then commits (EEPROM s') = Suc (commits (EEPROM s))
            \<and> image_calls (EEPROM s')
                = (image_calls (EEPROM s))[nat (hdr_newest (eeprom_hdr s')) := calls s' ! nat (newest s')]
            \<and> rec_seconds (calls s' ! nat (newest s')) = 0
         else EEPROM s' = EEPROM s \<and> eeprom_hdr s' = eeprom_hdr s)"
proof (cases "d = []")
  case True
  with ok show ?thesis
    by (simp add: loop_packet_def read_packet_def state_ok_def calls_ok_def archive_ok_def)
next
  case False
  let ?r = "received d s"
  from ok have c: "calls_ok s" and a: "archive_ok s" and len: "length (packet s) = MAX_PACKET"
    by (simp_all add: state_ok_def)
  have "pktptr ?r + 95 \<le> length (packet ?r)" "pktlen ?r \<le> int (length (packet ?r))"
    using len by (simp_all add: received_facts) (simp_all add: MAX_PACKET_def)
  from select_branch_total [OF this] obtain b s1 where
    sb: "select_branch ?r = Some (b, s1)" and ss: "same_store ?r s1"
    by blast
  from ss have "calls_ok s1 = calls_ok s" "archive_ok s1 = archive_ok s"
    by (simp_all add: calls_ok_def archive_ok_def same_store_def received_facts)
  with c a have c1: "calls_ok s1" and a1: "archive_ok s1"
    by simp_all
  from ss have e1: "EEPROM s1 = EEPROM s" "eeprom_hdr s1 = eeprom_hdr s"
    "length (packet s1) = MAX_PACKET"
    using len by (simp_all add: same_store_def received_facts)
  from run_branch_total [OF c1 a1, of b] obtain s' where
    rb: "run_branch b s1 = Some s'" "calls_ok s'" "archive_ok s'" "packet s' = packet s1"
    and eff: "if b = Start_call
         then commits (EEPROM s') = Suc (commits (EEPROM s1))
            \<and> image_calls (EEPROM s')
                = (image_calls (EEPROM s1))[nat (hdr_newest (eeprom_hdr s')) := calls s' ! nat (newest s')]
            \<and> rec_seconds (calls s' ! nat (newest s')) = 0
         else EEPROM s' = EEPROM s1 \<and> eeprom_hdr s' = eeprom_hdr s1"
    by blast
  have lp: "loop_packet d s = Some s'"
    using False sb rb(1)
    by (simp add: loop_packet_def read_packet_def process_packet_def Let_def MAX_PACKET_def)
  have bo: "branch_of ?r = Some b"
    using sb by (simp add: branch_of_def)
  from rb e1 have "state_ok s'" by (simp add: state_ok_def)
  with lp bo eff False e1 show ?thesis
    by (auto split: if_splits)
qed

lemma loop_packet_zero:
  assumes ok: "state_ok s" and z: "archive_zero s"
  shows "\<exists>s'. loop_packet d s = Some s' \<and> state_ok s' \<and> archive_zero s'"
proof -
  from loop_packet_total [OF ok, of d] obtain s' where
    lp: "loop_packet d s = Some s'" "state_ok s'"
    and eff: "if d \<noteq> [] \<and> branch_of (received d s) = Some Start_call
         then commits (EEPROM s') = Suc (commits (EEPROM s))
            \<and> image_calls (EEPROM s')
                = (image_calls (EEPROM s))[nat (hdr_newest (eeprom_hdr s')) := calls s' ! nat (newest s')]
            \<and> rec_seconds (calls s' ! nat (newest s')) = 0
         else EEPROM s' = EEPROM s \<and> eeprom_hdr s' = eeprom_hdr s"
    by blast
  from lp(2) have fl: "flash_calls (EEPROM s') = image_calls (EEPROM s')"
    by (simp add: state_ok_def archive_ok_def)
  have "archive_zero s'"
  proof (cases "d \<noteq> [] \<and> branch_of (received d s) = Some Start_call")
    case True
    with eff have "image_calls (EEPROM s')
                = (image_calls (EEPROM s))[nat (hdr_newest (eeprom_hdr s')) := calls s' ! nat (newest s')]"
      "rec_seconds (calls s' ! nat (newest s')) = 0"
      by simp_all
    with z fl show ?thesis
      by (simp add: archive_zero_def list_all_update)
  next
    case False
    with eff z show ?thesis
      by (simp add: archive_zero_def)
  qed
  with lp show ?thesis by blast
qed

lemma loop_packets_zero:
  "state_ok s \<Longrightarrow> archive_zero s \<Longrightarrow>
   \<exists>s'. loop_packets ds s = Some s' \<and> state_ok s' \<and> archive_zero s'"
proof (induction ds arbitrary: s)
  case Nil
  then show ?case by simp
next
  case (Cons d ds)
  from loop_packet_zero [OF Cons.prems, of d] obtain s1 where
    "loop_packet d s = Some s1" "state_ok s1" "archive_zero s1"
    by blast
  with Cons.IH [of s1] show ?case by simp
qed

text \<open>
  Claim C5. In every state the program is in between two packets, \<open>update_duration\<close>
  returns and leaves the archive as it was, the header \<open>eeprom_hdr\<close> and the \<open>EEPROM\<close>
  object with its image, its flash and its count of commits. The handling of a packet
  returns, and only the call start branch changes the archive: it commits once, after
  which the flash holds the header and, in the slot of the newest archive index, the
  record that \<open>add_call\<close> has just stored, whose duration is zero. Hence over every
  sequence of packets no archive record has a duration other than zero, provided none had
  one before.
\<close>

theorem archive_written_by_call_start_only:
  assumes "state_ok s"
  shows "(\<exists>s'. update_duration s = Some s' \<and> EEPROM s' = EEPROM s \<and> eeprom_hdr s' = eeprom_hdr s)
     \<and> (\<exists>s'. loop_packet d s = Some s' \<and> state_ok s'
          \<and> (if d \<noteq> [] \<and> branch_of (received d s) = Some Start_call
              then commits (EEPROM s') = Suc (commits (EEPROM s))
                 \<and> flash_hdr (EEPROM s') = eeprom_hdr s'
                 \<and> flash_calls (EEPROM s')
                     = (flash_calls (EEPROM s))[nat (hdr_newest (eeprom_hdr s')) := calls s' ! nat (newest s')]
                 \<and> rec_seconds (calls s' ! nat (newest s')) = 0
              else EEPROM s' = EEPROM s \<and> eeprom_hdr s' = eeprom_hdr s))
     \<and> (archive_zero s \<longrightarrow> (\<exists>s'. loop_packets ds s = Some s' \<and> state_ok s' \<and> archive_zero s'))"
proof (intro conjI impI)
  from assms have c: "calls_ok s" by (simp add: state_ok_def)
  from update_duration_cases [OF c]
  show "\<exists>s'. update_duration s = Some s' \<and> EEPROM s' = EEPROM s \<and> eeprom_hdr s' = eeprom_hdr s"
    by auto
next
  from assms have fl: "flash_calls (EEPROM s) = image_calls (EEPROM s)"
    by (simp add: state_ok_def archive_ok_def)
  from loop_packet_total [OF assms, of d] obtain s' where
    lp: "loop_packet d s = Some s'" "state_ok s'"
    and eff: "if d \<noteq> [] \<and> branch_of (received d s) = Some Start_call
         then commits (EEPROM s') = Suc (commits (EEPROM s))
            \<and> image_calls (EEPROM s')
                = (image_calls (EEPROM s))[nat (hdr_newest (eeprom_hdr s')) := calls s' ! nat (newest s')]
            \<and> rec_seconds (calls s' ! nat (newest s')) = 0
         else EEPROM s' = EEPROM s \<and> eeprom_hdr s' = eeprom_hdr s"
    by blast
  from lp(2) have fl': "flash_calls (EEPROM s') = image_calls (EEPROM s')"
    "flash_hdr (EEPROM s') = eeprom_hdr s'"
    by (simp_all add: state_ok_def archive_ok_def)
  from lp eff fl fl'
  show "\<exists>s'. loop_packet d s = Some s' \<and> state_ok s'
          \<and> (if d \<noteq> [] \<and> branch_of (received d s) = Some Start_call
              then commits (EEPROM s') = Suc (commits (EEPROM s))
                 \<and> flash_hdr (EEPROM s') = eeprom_hdr s'
                 \<and> flash_calls (EEPROM s')
                     = (flash_calls (EEPROM s))[nat (hdr_newest (eeprom_hdr s')) := calls s' ! nat (newest s')]
                 \<and> rec_seconds (calls s' ! nat (newest s')) = 0
              else EEPROM s' = EEPROM s \<and> eeprom_hdr s' = eeprom_hdr s)"
    by (auto split: if_splits)
next
  assume "archive_zero s"
  with loop_packets_zero [OF assms]
  show "\<exists>s'. loop_packets ds s = Some s' \<and> state_ok s' \<and> archive_zero s'"
    by blast
qed

theorem archive_written_by_call_start_only_witness:
  "state_ok power_on \<and> archive_zero power_on
   \<and> (\<exists>s'. update_duration power_on = Some s' \<and> EEPROM s' = EEPROM power_on)
   \<and> (\<exists>s'. loop_packet test_call_end power_on = Some s' \<and> state_ok s')
   \<and> (\<exists>s'. loop_packets [test_call_1, test_call_end] power_on = Some s' \<and> archive_zero s')"
proof -
  have c: "calls_ok power_on"
    by (simp add: calls_ok_def ring_ok_def power_on_def MAX_CALLS_def)
  have a: "archive_ok power_on"
    by (simp add: archive_ok_def ring_ok_def power_on_def zero_hdr_def NUM_EEPROM_CALLS_eq)
  have s: "state_ok power_on"
    using c a by (simp add: state_ok_def) (simp add: power_on_def)
  have z: "archive_zero power_on"
    by (simp add: archive_zero_def power_on_def list_all_iff zero_call_def)
  from archive_written_by_call_start_only [OF s, of test_call_end "[test_call_1, test_call_end]"] z
  have "(\<exists>s'. update_duration power_on = Some s' \<and> EEPROM s' = EEPROM power_on)
   \<and> (\<exists>s'. loop_packet test_call_end power_on = Some s' \<and> state_ok s')
   \<and> (\<exists>s'. loop_packets [test_call_1, test_call_end] power_on = Some s' \<and> archive_zero s')"
    by blast
  with s z show ?thesis by blast
qed

subsection \<open>Decoding a packet\<close>

lemma copy_loop_take:
  assumes "int (p + len) \<le> plen" and "plen \<le> int (length pkt)"
  shows "copy_loop len pkt plen p = Some (take len (drop p pkt), p + len)"
proof -
  from assms have le: "p + len \<le> length pkt" by linarith
  have "map (\<lambda>j. if int (p + j) < plen then pkt ! (p + j) else NUL) [0..<len]
      = take len (drop p pkt)"
  proof (rule nth_equalityI)
    show "length (map (\<lambda>j. if int (p + j) < plen then pkt ! (p + j) else NUL) [0..<len])
        = length (take len (drop p pkt))"
      using le by simp
  next
    fix i assume "i < length (map (\<lambda>j. if int (p + j) < plen then pkt ! (p + j) else NUL) [0..<len])"
    then have i: "i < len" by simp
    with assms have "int (p + i) < plen" by linarith
    with i le show "map (\<lambda>j. if int (p + j) < plen then pkt ! (p + j) else NUL) [0..<len] ! i
        = take len (drop p pkt) ! i"
      by simp
  qed
  moreover have "(if int p < plen then min (p + len) (nat plen) else p) = p + len"
    using assms by (cases "len = 0") (auto simp add: min_def)
  ultimately show ?thesis
    by (simp add: copy_loop_eq [OF assms(2)])
qed

lemma match_eq:
  "pktptr s + length lit \<le> length (packet s) \<Longrightarrow>
   match lit s =
     (if take (length lit) (drop (pktptr s) (packet s)) = lit
      then Some (True, s\<lparr>pktptr := pktptr s + length lit\<rparr>)
      else Some (False, s))"
  by (simp add: match_def match_loop_eq)

lemma copy_eq:
  "int (pktptr s + len) \<le> pktlen s \<Longrightarrow> pktlen s \<le> int (length (packet s)) \<Longrightarrow>
   copy d len s =
     Some (True, set_field d (take len (drop (pktptr s) (packet s)) @ drop len (get_field d s))
                   (s\<lparr>pktptr := pktptr s + len\<rparr>))"
  by (simp add: copy_def copy_loop_take)

lemma preamble_ok:
  assumes pk: "packet s = ''^^<U>'' @ u @ ''<S>'' @ sr @ ''$'' @ ln @ '' '' @ rest"
    and l: "length u = 6" "length sr = 6" "length ln = 2"
    and p: "pktptr s = 0" and pl: "52 \<le> pktlen s" "pktlen s \<le> int (length (packet s))"
  shows "bad_preamble s =
    Some (False, s\<lparr>pktptr := 24, unitnum := u @ drop 6 (unitnum s),
                   serialnum := sr @ drop 6 (serialnum s),
                   phoneline := ln @ drop 2 (phoneline s)\<rparr>)"
proof -
  from pl have len: "52 \<le> length (packet s)" by linarith
  have "length (packet s) = 24 + length rest"
    by (simp add: pk l)
  show ?thesis
    using pl len
    by (simp add: bad_preamble_def or_else_def negate_def test_def match_eq copy_eq p pk l)
qed

lemma received_packet:
  assumes "d \<noteq> []" "length d \<le> MAX_PACKET" "length (packet s) = MAX_PACKET"
  shows "packet (received d s) = d @ drop (length d) (packet s)"
    "pktlen (received d s) = int (length d)"
    "length (packet (received d s)) = MAX_PACKET"
  using assms by (simp_all add: received_def read_packet_def Let_def min_def)

lemma received_fields [simp]:
  "unitnum (received d s) = unitnum s" "serialnum (received d s) = serialnum s"
  "phoneline (received d s) = phoneline s" "duration (received d s) = duration s"
  "atype (received d s) = atype s" "datetime (received d s) = datetime s"
  "phonenum (received d s) = phonenum s" "callername (received d s) = callername s"
  by (simp_all add: received_def read_packet_def Let_def)

lemma start_call_ok:
  assumes pk: "packet s = pre @ ''I S '' @ dur @ cls @ ''A'' @ [sub] @ '' '' @ dt @ ph @ nm @ rest"
    and l: "length pre = 24" "length dur = 4" "length dt = 15" "length ph = 15" "length nm = 15"
    and cls: "cls = '' G '' \<or> cls = '' B ''"
    and p: "pktptr s = 24" and pl: "pktlen s = 83" "pktlen s \<le> int (length (packet s))"
  shows "start_call s =
    Some (True, s\<lparr>pktptr := 83, duration := dur @ drop 4 (duration s),
                  atype := sub # drop 1 (atype s),
                  datetime := dt @ drop 15 (datetime s),
                  phonenum := ph @ drop 15 (phonenum s),
                  callername := nm @ drop 15 (callername s)\<rparr>)"
proof -
  from pl have len: "83 \<le> length (packet s)" by linarith
  from cls have lc: "length cls = 3" by auto
  show ?thesis
    using pl len cls
    by (auto simp add: start_call_def and_also_def or_else_def test_def match_eq copy_eq p pk l)
qed

lemma boot_notice_other_length:
  "pktlen s \<noteq> 52 \<Longrightarrow> boot_notice s = Some (False, s)"
  by (simp add: boot_notice_def and_also_def test_def)








lemma state_ok_power_on: "state_ok power_on"
proof -
  have c: "calls_ok power_on"
    by (simp add: calls_ok_def ring_ok_def power_on_def MAX_CALLS_def)
  have a: "archive_ok power_on"
    by (simp add: archive_ok_def ring_ok_def power_on_def zero_hdr_def NUM_EEPROM_CALLS_eq)
  show ?thesis
    using c a by (simp add: state_ok_def) (simp add: power_on_def)
qed

lemma match_eq_n:
  "length lit = n \<Longrightarrow> pktptr s + n \<le> length (packet s) \<Longrightarrow>
   match lit s =
     (if take n (drop (pktptr s) (packet s)) = lit
      then Some (True, s\<lparr>pktptr := pktptr s + n\<rparr>)
      else Some (False, s))"
  by (simp add: match_eq)

lemma start_call_first_literal:
  assumes "take 4 (drop (pktptr s) (packet s)) \<noteq> ''I S ''" "pktptr s + 4 \<le> length (packet s)"
  shows "start_call s = Some (False, s)"
proof -
  have "match ''I S '' s = Some (False, s)"
    using assms match_eq_n [of "''I S ''" 4 s] by simp
  then show ?thesis
    by (simp add: start_call_def and_also_def test_def)
qed

lemma start_call_length:
  assumes "\<not> (70 \<le> pktlen s \<and> pktlen s \<le> 83)"
  shows "start_call s = Some (False, s)"
  using assms by (auto simp add: start_call_def and_also_def test_def)

lemma end_call_ok:
  assumes pk: "packet s = pre @ ''I E '' @ secs @ rest"
    and l: "length pre = pktptr s" "length secs = 4"
    and pl: "70 \<le> pktlen s" "pktlen s \<le> 83" "pktlen s \<le> int (length (packet s))"
    and p: "pktptr s \<le> 62"
  shows "end_call s = Some (True, s\<lparr>pktptr := pktptr s + 8, duration := secs @ drop 4 (duration s)\<rparr>)"
proof -
  from pl p have len: "pktptr s + 8 \<le> length (packet s)" by linarith
  have t: "take 4 (drop (pktptr s) (packet s)) = ''I E ''"
    "take 4 (drop (pktptr s + 4) (packet s)) = secs"
    by (simp_all add: pk l(1)[symmetric] l(2))
  have m: "match ''I E '' s = Some (True, s\<lparr>pktptr := pktptr s + 4\<rparr>)"
    using t(1) len match_eq_n [of "''I E ''" 4 s] by simp
  have c: "copy Duration 4 (s\<lparr>pktptr := pktptr s + 4\<rparr>)
      = Some (True, s\<lparr>pktptr := pktptr s + 8, duration := secs @ drop 4 (duration s)\<rparr>)"
    using pl p t(2) by (simp add: copy_eq)
  show ?thesis
    using pl by (simp add: end_call_def and_also_def test_def m c)
qed

lemma call_end_decoded:
  assumes ok: "state_ok s"
    and l: "length unit = 6" "length serial = 6" "length line = 2" "length secs = 4"
    and n: "70 \<le> length (call_end_packet unit serial line secs rest)"
      "length (call_end_packet unit serial line secs rest) \<le> 83"
  shows "select_branch (received (call_end_packet unit serial line secs rest) s) =
     Some (End_call, (received (call_end_packet unit serial line secs rest) s)
        \<lparr>pktptr := 32, unitnum := unit @ drop 6 (unitnum s),
          serialnum := serial @ drop 6 (serialnum s),
          phoneline := line @ drop 2 (phoneline s),
          duration := secs @ drop 4 (duration s)\<rparr>)"
proof -
  let ?buf = "call_end_packet unit serial line secs rest"
  let ?r = "received ?buf s"
  from ok have len: "length (packet s) = MAX_PACKET"
    by (simp add: state_ok_def)
  from n have ne: "?buf \<noteq> []" and le: "length ?buf \<le> MAX_PACKET"
    by (auto simp add: MAX_PACKET_def)
  note rp = received_packet [OF ne le len]
  have pk: "packet ?r = ''^^<U>'' @ unit @ ''<S>'' @ serial @ ''$'' @ line @ '' ''
      @ (''I E '' @ secs @ rest @ drop (length ?buf) (packet s))"
    by (simp add: rp(1)) (simp add: call_end_packet_def)
  have pl: "52 \<le> pktlen ?r" "pktlen ?r \<le> int (length (packet ?r))"
    using n by (simp_all add: rp MAX_PACKET_def)
  define r1 where "r1 = ?r\<lparr>pktptr := 24, unitnum := unit @ drop 6 (unitnum ?r),
                   serialnum := serial @ drop 6 (serialnum ?r),
                   phoneline := line @ drop 2 (phoneline ?r)\<rparr>"
  have 1: "bad_preamble ?r = Some (False, r1)"
    unfolding r1_def
    by (rule preamble_ok [OF pk l(1,2,3) _ pl]) (simp add: received_facts)
  have 2: "boot_notice r1 = Some (False, r1)"
    using n by (intro boot_notice_other_length) (simp add: r1_def rp)
  have pk1: "packet r1 = (''^^<U>'' @ unit @ ''<S>'' @ serial @ ''$'' @ line @ '' '')
      @ ''I E '' @ secs @ (rest @ drop (length ?buf) (packet s))"
    by (simp add: r1_def pk)
  have p1: "pktptr r1 = 24" "pktlen r1 = int (length ?buf)" "length (packet r1) = MAX_PACKET"
    by (simp_all add: r1_def rp(2,3))
  have "take 4 (drop (pktptr r1) (packet r1)) = ''I E ''"
    by (simp add: pk1 p1 l)
  then have "take 4 (drop (pktptr r1) (packet r1)) \<noteq> ''I S ''"
    by simp
  then have 3: "start_call r1 = Some (False, r1)"
    by (rule start_call_first_literal) (simp add: p1 MAX_PACKET_def)
  have 4: "end_call r1 = Some (True, r1\<lparr>pktptr := pktptr r1 + 8, duration := secs @ drop 4 (duration r1)\<rparr>)"
    using n by (intro end_call_ok [OF pk1]) (simp_all add: p1 l MAX_PACKET_def)
  show ?thesis
    by (simp add: select_branch_def 1 2 3 4) (simp add: r1_def)
qed

text \<open>
  Claim C6, as amended. A packet in the grammar of a call end, of 70 to 83 bytes, takes the
  call end branch with its seconds field in \<open>duration\<close>. Where \<open>sscanf\<close> reads no
  number from that field, the packet is dropped: the main loop returns the state that the
  conditions have left, with the record of the last bad packet, the call list and the
  archive as they were.
\<close>

theorem call_end_unparsed_seconds_dropped:
  assumes ok: "state_ok s" and z: "drop 4 (duration s) = [NUL]"
    and l: "length unit = 6" "length serial = 6" "length line = 2" "length secs = 4"
    and n: "70 \<le> length (call_end_packet unit serial line secs rest)"
      "length (call_end_packet unit serial line secs rest) \<le> 83"
    and np: "sscanf_d (secs @ [NUL]) = None"
  shows "\<exists>s1. select_branch (received (call_end_packet unit serial line secs rest) s)
           = Some (End_call, s1)
       \<and> duration s1 = secs @ [NUL]
       \<and> loop_packet (call_end_packet unit serial line secs rest) s = Some s1
       \<and> badpacket_count s1 = badpacket_count s \<and> badpacket_type s1 = badpacket_type s
       \<and> badpacket_length s1 = badpacket_length s \<and> badpacket_data s1 = badpacket_data s
       \<and> calls s1 = calls s \<and> num_calls s1 = num_calls s
       \<and> eeprom_hdr s1 = eeprom_hdr s \<and> EEPROM s1 = EEPROM s"
proof -
  let ?buf = "call_end_packet unit serial line secs rest"
  define s1 where "s1 = (received ?buf s)
        \<lparr>pktptr := 32, unitnum := unit @ drop 6 (unitnum s),
          serialnum := serial @ drop 6 (serialnum s),
          phoneline := line @ drop 2 (phoneline s),
          duration := secs @ drop 4 (duration s)\<rparr>"
  have sb: "select_branch (received ?buf s) = Some (End_call, s1)"
    unfolding s1_def by (rule call_end_decoded [OF ok l n])
  have d: "duration s1 = secs @ [NUL]"
    by (simp add: s1_def z)
  with np have "update_duration s1 = Some s1"
    by (simp add: update_duration_def)
  moreover from n have "?buf \<noteq> []" by auto
  ultimately have lp: "loop_packet ?buf s = Some s1"
    using sb
    by (simp add: loop_packet_def read_packet_def process_packet_def run_branch_def Let_def
        MAX_PACKET_def)
  have "badpacket_count s1 = badpacket_count s \<and> badpacket_type s1 = badpacket_type s
       \<and> badpacket_length s1 = badpacket_length s \<and> badpacket_data s1 = badpacket_data s
       \<and> calls s1 = calls s \<and> num_calls s1 = num_calls s
       \<and> eeprom_hdr s1 = eeprom_hdr s \<and> EEPROM s1 = EEPROM s"
    by (simp add: s1_def received_def read_packet_def Let_def)
  with sb d lp show ?thesis by blast
qed

lemma preamble_cursor:
  assumes "bad_preamble s = Some (False, s1)" "pktptr s = 0" "length (packet s) = MAX_PACKET"
    "pktlen s \<le> int MAX_PACKET"
  shows "pktptr s1 = 24 \<and> packet s1 = packet s \<and> pktlen s1 = pktlen s \<and> 52 \<le> pktlen s"
  using assms
  by (auto simp add: bad_preamble_def or_else_def negate_def test_def match_eq copy_eq
      MAX_PACKET_def split: if_splits)

lemma boot_notice_result:
  assumes "pktptr s + 1 \<le> length (packet s)"
  shows "\<exists>r. boot_notice s = Some (r, if r then s\<lparr>pktptr := pktptr s + 1\<rparr> else s)"
  using assms match_eq_n [of "''V''" 1 s]
  by (auto simp add: boot_notice_def and_also_def test_def)

lemma start_call_consumes:
  assumes m: "take 4 (drop (pktptr s) (packet s)) = ''I S ''"
    and pl: "70 \<le> pktlen s" "pktlen s \<le> 83" "pktlen s \<le> int (length (packet s))"
    and p: "pktptr s + 62 \<le> length (packet s)" "int (pktptr s) + 8 \<le> pktlen s"
  shows "\<exists>r s'. start_call s = Some (r, s') \<and> pktptr s + 8 \<le> pktptr s'"
proof -
  define rest where "rest =
     and_also (or_else (match '' G '') (match '' B ''))
    (and_also (match ''A'')
    (and_also (copy Atype 1)
    (and_also (match '' '')
    (and_also (copy Datetime 15)
    (and_also (copy Phonenum 15)
              (copy Callername 15))))))"
  have "advances ((length '' G '' + length '' B '') + (length ''A'' + (1 + (length '' ''
      + (15 + (15 + 15)))))) rest"
    unfolding rest_def by (intro advances_intros)
  then have adv: "advances 54 rest" by simp
  have sc: "start_call =
     and_also (test (\<lambda>s. pktlen s \<ge> 70))
    (and_also (test (\<lambda>s. pktlen s \<le> 83))
    (and_also (match ''I S '')
    (and_also (copy Duration 4) rest)))"
    by (simp add: start_call_def rest_def)
  have 1: "match ''I S '' s = Some (True, s\<lparr>pktptr := pktptr s + 4\<rparr>)"
    using m p match_eq_n [of "''I S ''" 4 s] by simp
  define s8 where "s8 = set_field Duration
      (take 4 (drop (pktptr s + 4) (packet s)) @ drop 4 (get_field Duration (s\<lparr>pktptr := pktptr s + 4\<rparr>)))
      (s\<lparr>pktptr := pktptr s + 8\<rparr>)"
  have 2: "copy Duration 4 (s\<lparr>pktptr := pktptr s + 4\<rparr>) = Some (True, s8)"
    using pl p by (simp add: copy_eq s8_def)
  have p8: "pktptr s8 = pktptr s + 8" "packet s8 = packet s" "pktlen s8 = pktlen s"
    by (simp_all add: s8_def)
  with p pl have "pktptr s8 + 54 \<le> length (packet s8)" "pktlen s8 \<le> int (length (packet s8))"
    by simp_all
  from advancesD [OF adv this] obtain r s' where
    3: "rest s8 = Some (r, s')" "pktptr s8 \<le> pktptr s'"
    by blast
  have "start_call s = Some (r, s')"
    using pl by (simp add: sc and_also_def test_def 1 2 3)
  with 3(2) p8 show ?thesis by simp
qed

text \<open>
  How the branches follow each other. After a preamble that matches, \<open>pktptr\<close> is 24 and
  the boot notice, call start and call end branches are tried in this order. Each branch
  matches from the state that the one before has left. A literal that fails puts \<open>pktptr\<close> back
  to its own start only: the boot notice branch, and the call start branch where the
  length is out of range or \<open>''I S ''\<close> is not at 24, fail with the state unchanged,
  while a call start branch that has matched \<open>''I S ''\<close> and copied the duration leaves
  \<open>pktptr\<close> at 32 or beyond, and the call end branch matches from there.
\<close>

lemma later_branch_starts_where_earlier_stopped:
  assumes ok: "state_ok s" and pre: "bad_preamble (received d s) = Some (False, s1)"
  shows "pktptr s1 = 24
     \<and> (\<exists>r2 r3 s3.
          boot_notice s1 = Some (r2, if r2 then s1\<lparr>pktptr := 25\<rparr> else s1)
        \<and> start_call s1 = Some (r3, s3) \<and> 24 \<le> pktptr s3
        \<and> ((if 70 \<le> pktlen s1 \<and> pktlen s1 \<le> 83 \<and> take 4 (drop 24 (packet s1)) = ''I S ''
             then 32 \<le> pktptr s3 else s3 = s1))
        \<and> (if r2 then select_branch (received d s) = Some (Boot_notice, s1\<lparr>pktptr := 25\<rparr>)
            else if r3 then select_branch (received d s) = Some (Start_call, s3)
            else (\<exists>r4 s4. end_call s3 = Some (r4, s4)
                  \<and> select_branch (received d s)
                      = Some (if r4 then End_call else Unhandled, s4))))"
proof -
  let ?r = "received d s"
  from ok have len: "length (packet s) = MAX_PACKET"
    by (simp add: state_ok_def)
  have r: "pktptr ?r = 0" "length (packet ?r) = MAX_PACKET" "pktlen ?r \<le> int MAX_PACKET"
    using len by (simp_all add: received_facts)
  from preamble_cursor [OF pre r] have
    s1: "pktptr s1 = 24" "packet s1 = packet ?r" "pktlen s1 = pktlen ?r" "52 \<le> pktlen ?r"
    by simp_all
  have l1: "length (packet s1) = 255" "pktlen s1 \<le> 255"
    using r s1 by (simp_all add: MAX_PACKET_def)
  have "pktptr s1 + 1 \<le> length (packet s1)"
    using l1 s1 by simp
  from boot_notice_result [OF this] obtain r2 where
    "boot_notice s1 = Some (r2, if r2 then s1\<lparr>pktptr := pktptr s1 + 1\<rparr> else s1)"
    by blast
  then have 2: "boot_notice s1 = Some (r2, if r2 then s1\<lparr>pktptr := 25\<rparr> else s1)"
    by (simp add: s1(1))
  have "pktptr s1 + 62 \<le> length (packet s1)" "pktlen s1 \<le> int (length (packet s1))"
    using l1 s1 by simp_all
  from advancesD [OF advances_start_call this] obtain r3 s3 where
    3: "start_call s1 = Some (r3, s3)" "pktptr s1 \<le> pktptr s3" "pktptr s3 \<le> pktptr s1 + 62"
      "same_store s1 s3"
    by blast
  have c: "if 70 \<le> pktlen s1 \<and> pktlen s1 \<le> 83 \<and> take 4 (drop 24 (packet s1)) = ''I S ''
           then 32 \<le> pktptr s3 else s3 = s1"
  proof (cases "70 \<le> pktlen s1 \<and> pktlen s1 \<le> 83")
    case False
    from start_call_length [OF False] 3(1) show ?thesis
      using False by auto
  next
    case True
    show ?thesis
    proof (cases "take 4 (drop 24 (packet s1)) = ''I S ''")
      case m: True
      from start_call_consumes [of s1] m True l1 s1 3(1) show ?thesis
        by auto
    next
      case m: False
      from start_call_first_literal [of s1] m l1 s1 3(1) show ?thesis
        by auto
    qed
  qed
  have e: "\<exists>r4 s4. end_call s3 = Some (r4, s4)"
  proof -
    from 3 l1 s1 have "pktptr s3 + 8 \<le> length (packet s3)" "pktlen s3 \<le> int (length (packet s3))"
      by (simp_all add: same_store_def)
    from advancesD [OF advances_end_call this] show ?thesis
      by blast
  qed
  have sel: "if r2 then select_branch ?r = Some (Boot_notice, s1\<lparr>pktptr := 25\<rparr>)
            else if r3 then select_branch ?r = Some (Start_call, s3)
            else (\<exists>r4 s4. end_call s3 = Some (r4, s4)
                  \<and> select_branch ?r = Some (if r4 then End_call else Unhandled, s4))"
    using pre 2 3(1) e by (auto simp add: select_branch_def)
  from s1(1) 2 3(1,2) c sel show ?thesis
    by (simp only: s1(1)) blast
qed

lemma end_call_first_literal:
  assumes "take 4 (drop (pktptr s) (packet s)) \<noteq> ''I E ''" "pktptr s + 4 \<le> length (packet s)"
  shows "end_call s = Some (False, s)"
proof -
  have "match ''I E '' s = Some (False, s)"
    using assms match_eq_n [of "''I E ''" 4 s] by simp
  then show ?thesis
    by (simp add: end_call_def and_also_def test_def)
qed

lemma start_call_stops_at_class:
  assumes pk: "packet s = pre @ ''I S '' @ dur @ ''I E '' @ rest"
    and l: "length pre = 24" "length dur = 4"
    and p: "pktptr s = 24" and pl: "70 \<le> pktlen s" "pktlen s \<le> 83" "pktlen s \<le> int (length (packet s))"
  shows "start_call s = Some (False, s\<lparr>pktptr := 32, duration := dur @ drop 4 (duration s)\<rparr>)"
proof -
  from pl have len: "83 \<le> length (packet s) \<or> 70 \<le> length (packet s)" by linarith
  then have len: "70 \<le> length (packet s)" by linarith
  show ?thesis
    using pl len
    by (auto simp add: start_call_def and_also_def or_else_def test_def match_eq copy_eq p pk l)
qed

lemma start_end_trace:
  assumes ok: "state_ok s"
    and l: "length unit = 6" "length serial = 6" "length line = 2" "length dur = 4"
      "length secs = 4"
    and n: "70 \<le> length (start_end_packet unit serial line dur secs rest)"
      "length (start_end_packet unit serial line dur secs rest) \<le> 83"
  shows "\<exists>s1 s3 s4.
      bad_preamble (received (start_end_packet unit serial line dur secs rest) s) = Some (False, s1)
    \<and> pktptr s1 = 24 \<and> boot_notice s1 = Some (False, s1)
    \<and> start_call s1 = Some (False, s3) \<and> pktptr s3 = 32
    \<and> end_call s3 = Some (True, s4)
    \<and> end_call (s3\<lparr>pktptr := 24\<rparr>) = Some (False, s3\<lparr>pktptr := 24\<rparr>)
    \<and> select_branch (received (start_end_packet unit serial line dur secs rest) s)
        = Some (End_call, s4)
    \<and> duration s4 = secs @ drop 4 (duration s)
    \<and> phoneline s4 = line @ drop 2 (phoneline s)
    \<and> same_store (received (start_end_packet unit serial line dur secs rest) s) s4"
proof -
  let ?buf = "start_end_packet unit serial line dur secs rest"
  let ?r = "received ?buf s"
  from ok have len: "length (packet s) = MAX_PACKET"
    by (simp add: state_ok_def)
  from n have ne: "?buf \<noteq> []" and le: "length ?buf \<le> MAX_PACKET"
    by (auto simp add: MAX_PACKET_def)
  note rp = received_packet [OF ne le len]
  have pk: "packet ?r = ''^^<U>'' @ unit @ ''<S>'' @ serial @ ''$'' @ line @ '' ''
      @ (''I S '' @ dur @ ''I E '' @ secs @ rest @ drop (length ?buf) (packet s))"
    by (simp add: rp(1)) (simp add: start_end_packet_def)
  have pl: "52 \<le> pktlen ?r" "pktlen ?r \<le> int (length (packet ?r))"
    using n by (simp_all add: rp MAX_PACKET_def)
  define r1 where "r1 = ?r\<lparr>pktptr := 24, unitnum := unit @ drop 6 (unitnum ?r),
                   serialnum := serial @ drop 6 (serialnum ?r),
                   phoneline := line @ drop 2 (phoneline ?r)\<rparr>"
  have 1: "bad_preamble ?r = Some (False, r1)"
    unfolding r1_def
    by (rule preamble_ok [OF pk l(1,2,3) _ pl]) (simp add: received_facts)
  have 2: "boot_notice r1 = Some (False, r1)"
    using n by (intro boot_notice_other_length) (simp add: r1_def rp)
  have pk1: "packet r1 = (''^^<U>'' @ unit @ ''<S>'' @ serial @ ''$'' @ line @ '' '')
      @ ''I S '' @ dur @ ''I E '' @ (secs @ rest @ drop (length ?buf) (packet s))"
    by (simp add: r1_def pk)
  have p1: "pktptr r1 = 24" "pktlen r1 = int (length ?buf)" "length (packet r1) = MAX_PACKET"
    by (simp_all add: r1_def rp(2,3))
  define r3 where "r3 = r1\<lparr>pktptr := 32, duration := dur @ drop 4 (duration r1)\<rparr>"
  have 3: "start_call r1 = Some (False, r3)"
    unfolding r3_def using n
    by (intro start_call_stops_at_class [OF pk1]) (simp_all add: p1 l MAX_PACKET_def)
  have pk3: "packet r3 = (''^^<U>'' @ unit @ ''<S>'' @ serial @ ''$'' @ line @ '' '' @ ''I S '' @ dur)
      @ ''I E '' @ secs @ (rest @ drop (length ?buf) (packet s))"
    by (simp add: r3_def pk1)
  have p3: "pktptr r3 = 32" "pktlen r3 = int (length ?buf)" "length (packet r3) = MAX_PACKET"
    by (simp_all add: r3_def p1)
  have 4: "end_call r3 = Some (True, r3\<lparr>pktptr := pktptr r3 + 8, duration := secs @ drop 4 (duration r3)\<rparr>)"
    using n by (intro end_call_ok [OF pk3]) (simp_all add: p3 l MAX_PACKET_def)
  have "take 4 (drop 24 (packet r3)) = ''I S ''"
    by (simp add: pk3 l)
  then have "take 4 (drop (pktptr (r3\<lparr>pktptr := 24\<rparr>)) (packet (r3\<lparr>pktptr := 24\<rparr>))) \<noteq> ''I E ''"
    by simp
  then have 5: "end_call (r3\<lparr>pktptr := 24\<rparr>) = Some (False, r3\<lparr>pktptr := 24\<rparr>)"
    by (rule end_call_first_literal) (simp add: p3 MAX_PACKET_def)
  have 6: "select_branch ?r
      = Some (End_call, r3\<lparr>pktptr := pktptr r3 + 8, duration := secs @ drop 4 (duration r3)\<rparr>)"
    by (simp add: select_branch_def 1 2 3 4)
  have 7: "duration (r3\<lparr>pktptr := pktptr r3 + 8, duration := secs @ drop 4 (duration r3)\<rparr>)
      = secs @ drop 4 (duration s)"
    by (simp add: r3_def r1_def l)
  have 8: "phoneline (r3\<lparr>pktptr := pktptr r3 + 8, duration := secs @ drop 4 (duration r3)\<rparr>)
      = line @ drop 2 (phoneline s)"
    by (simp add: r3_def r1_def)
  have 9: "same_store ?r (r3\<lparr>pktptr := pktptr r3 + 8, duration := secs @ drop 4 (duration r3)\<rparr>)"
    by (simp add: same_store_def r3_def r1_def)
  from 1 p1(1) 2 3 p3(1) 4 5 6 7 8 9 show ?thesis
    by blast
qed

lemma call_start_decoded:
  assumes ok: "state_ok s"
    and l: "length unit = 6" "length serial = 6" "length line = 2" "length dur = 4"
      "length dt = 15" "length ph = 15" "length nm = 15"
    and cls: "cls = '' G '' \<or> cls = '' B ''"
  shows "select_branch (received (call_start_packet unit serial line dur cls sub dt ph nm) s) =
     Some (Start_call, (received (call_start_packet unit serial line dur cls sub dt ph nm) s)
        \<lparr>pktptr := 83, unitnum := unit @ drop 6 (unitnum s),
          serialnum := serial @ drop 6 (serialnum s),
          phoneline := line @ drop 2 (phoneline s),
          duration := dur @ drop 4 (duration s),
          atype := sub # drop 1 (atype s),
          datetime := dt @ drop 15 (datetime s),
          phonenum := ph @ drop 15 (phonenum s),
          callername := nm @ drop 15 (callername s)\<rparr>)"
proof -
  let ?buf = "call_start_packet unit serial line dur cls sub dt ph nm"
  let ?r = "received ?buf s"
  from ok have len: "length (packet s) = MAX_PACKET"
    by (simp add: state_ok_def)
  from cls have lc: "length cls = 3" by auto
  have lb: "length ?buf = 83"
    by (simp add: call_start_packet_def l lc)
  then have ne: "?buf \<noteq> []" and le: "length ?buf \<le> MAX_PACKET"
    by (auto simp add: MAX_PACKET_def)
  note rp = received_packet [OF ne le len]
  have pk: "packet ?r = ''^^<U>'' @ unit @ ''<S>'' @ serial @ ''$'' @ line @ '' ''
      @ (''I S '' @ dur @ cls @ ''A'' @ [sub] @ '' '' @ dt @ ph @ nm @ drop 83 (packet s))"
    by (simp add: rp(1) lb) (simp add: call_start_packet_def)
  have pl: "52 \<le> pktlen ?r" "pktlen ?r \<le> int (length (packet ?r))"
    by (simp_all add: rp lb MAX_PACKET_def)
  define r1 where "r1 = ?r\<lparr>pktptr := 24, unitnum := unit @ drop 6 (unitnum ?r),
                   serialnum := serial @ drop 6 (serialnum ?r),
                   phoneline := line @ drop 2 (phoneline ?r)\<rparr>"
  have 1: "bad_preamble ?r = Some (False, r1)"
    unfolding r1_def
    by (rule preamble_ok [OF pk l(1,2,3) _ pl]) (simp add: received_facts)
  have 2: "boot_notice r1 = Some (False, r1)"
    by (rule boot_notice_other_length) (simp add: r1_def rp lb)
  have pk1: "packet r1 = (''^^<U>'' @ unit @ ''<S>'' @ serial @ ''$'' @ line @ '' '')
      @ ''I S '' @ dur @ cls @ ''A'' @ [sub] @ '' '' @ dt @ ph @ nm @ drop 83 (packet s)"
    by (simp add: r1_def pk)
  have 3: "start_call r1 = Some (True, r1\<lparr>pktptr := 83, duration := dur @ drop 4 (duration r1),
                  atype := sub # drop 1 (atype r1),
                  datetime := dt @ drop 15 (datetime r1),
                  phonenum := ph @ drop 15 (phonenum r1),
                  callername := nm @ drop 15 (callername r1)\<rparr>)"
    by (rule start_call_ok [OF pk1 _ l(4,5,6,7) cls])
       (simp_all add: l r1_def rp lb MAX_PACKET_def)
  show ?thesis
    by (simp add: select_branch_def 1 2 3) (simp add: r1_def)
qed

lemma first_call_stored:
  "\<exists>s1. loop_packet test_call_1 power_on = Some s1 \<and> state_ok s1
     \<and> num_calls s1 = 1 \<and> newest s1 = 0
     \<and> rec_phoneline (calls s1 ! 0) = 0 \<and> rec_seconds (calls s1 ! 0) = 0
     \<and> phoneline s1 = ''01'' @ [NUL] \<and> duration s1 = ''0000'' @ [NUL]
     \<and> badpacket_count s1 = 0"
proof -
  have l: "length ''123456'' = 6" "length ''01'' = 2" "length ''0000'' = 4"
    "length ''03/14 10:55 PM '' = 15" "length ''111 111 1111   '' = 15"
    "length ''Caller one     '' = 15"
    by simp_all
  have g: "'' G '' = '' G '' \<or> '' G '' = '' B ''"
    by simp
  define r2 where "r2 = (received test_call_1 power_on)
        \<lparr>pktptr := 83, unitnum := ''123456'' @ drop 6 (unitnum power_on),
          serialnum := ''123456'' @ drop 6 (serialnum power_on),
          phoneline := ''01'' @ drop 2 (phoneline power_on),
          duration := ''0000'' @ drop 4 (duration power_on),
          atype := CHR ''0'' # drop 1 (atype power_on),
          datetime := ''03/14 10:55 PM '' @ drop 15 (datetime power_on),
          phonenum := ''111 111 1111   '' @ drop 15 (phonenum power_on),
          callername := ''Caller one     '' @ drop 15 (callername power_on)\<rparr>"
  have sb: "select_branch (received test_call_1 power_on) = Some (Start_call, r2)"
    unfolding r2_def
    using call_start_decoded [OF state_ok_power_on l(1) l(1) l(2) l(3) l(4) l(5) l(6) g,
      of "CHR ''0''", folded test_call_1_def] .
  have ok2: "calls_ok r2" "archive_ok r2"
    using state_ok_power_on
    by (simp_all add: r2_def state_ok_def calls_ok_def archive_ok_def received_facts)
  have f2: "num_calls r2 = 0" "oldest r2 = 0" "newest r2 = 0"
    "hdr_num_calls (eeprom_hdr r2) = 0" "badpacket_count r2 = 0"
    "phoneline r2 = ''01'' @ [NUL]" "duration r2 = ''0000'' @ [NUL]"
    by (simp_all add: r2_def received_facts)
       (simp_all add: power_on_def zero_hdr_def received_def read_packet_def Let_def)
  have li: "parse_phoneline r2 = 0"
    by (simp add: parse_phoneline_def f2 line_index_def sscanf_d_def c_str_def scan_int_def
        isdigit_def isspace_def NUL_def MAX_LINES_def)
  from run_start_call [OF ok2] obtain s1 where
    rb: "run_branch Start_call r2 = Some s1" "calls_ok s1" "archive_ok s1"
    by blast
  have ne: "test_call_1 \<noteq> []"
    by (simp add: test_call_1_def call_start_packet_def)
  have lp: "loop_packet test_call_1 power_on = Some s1"
    using ne sb rb(1)
    by (simp add: loop_packet_def read_packet_def process_packet_def Let_def MAX_PACKET_def)
  from loop_packet_total [OF state_ok_power_on, of test_call_1] lp have ok1: "state_ok s1"
    by auto
  have sp: "spec_append MAX_CALLS (num_calls r2, oldest r2, newest r2) = (1, 0, 0)"
    by (simp add: spec_append_def f2)
  note ac = add_call_eq [OF ok2(1) sp]
  define t where "t = r2\<lparr>num_calls := 1, oldest := 0, newest := 0,
           calls := (calls r2)[nat 0 :=
                 \<lparr>rec_phoneline = parse_phoneline r2, rec_seconds = 0,
                  rec_datetime = datetime r2, rec_phonenum = phonenum r2,
                  rec_callername = callername r2\<rparr>]\<rparr>"
  from ok2(1) have lc: "length (calls r2) = 200"
    by (simp add: calls_ok_def MAX_CALLS_def)
  have ct: "calls_ok t" "archive_ok t" "in_bounds (newest t) (calls t)"
    using ok2 lc
    by (simp_all add: t_def calls_ok_def archive_ok_def ring_ok_def in_bounds_def MAX_CALLS_def)
  have sp': "spec_append NUM_EEPROM_CALLS
        (hdr_num_calls (eeprom_hdr t), hdr_oldest (eeprom_hdr t), hdr_newest (eeprom_hdr t))
        = (1, 0, 0)"
    by (simp add: spec_append_def t_def f2)
  note ea = eeprom_add_call_eq [OF ct(2) ct(3) sp']
  from ea obtain u where u: "eeprom_add_call t = Some u" "calls u = calls t"
    "num_calls u = 1" "newest u = 0" "oldest u = 0" "phoneline u = phoneline t" "duration u = duration t"
    "badpacket_count u = badpacket_count t"
    by (simp add: t_def)
  have "calls_ok u"
    using ct(1) u(2,3,4,5) by (simp add: calls_ok_def ring_ok_def t_def)
  from show_newest_call_ok [OF this] u(3)
  have sn: "show_newest_call u = Some (u\<lparr>displayed := newest u, displayed_age := 1\<rparr>)"
    by simp
  have "run_branch Start_call r2 = Some (u\<lparr>displayed := newest u, displayed_age := 1\<rparr>)"
    using ac u(1) sn by (simp add: run_branch_def t_def)
  with rb(1) have s1: "s1 = u\<lparr>displayed := newest u, displayed_age := 1\<rparr>"
    by simp
  have "num_calls s1 = 1" "newest s1 = 0" "rec_phoneline (calls s1 ! 0) = 0"
    "rec_seconds (calls s1 ! 0) = 0" "phoneline s1 = ''01'' @ [NUL]"
    "duration s1 = ''0000'' @ [NUL]" "badpacket_count s1 = 0"
    using lc by (simp_all add: s1 u t_def f2 li)
  with lp ok1 show ?thesis by blast
qed

text \<open>
  Claim C4. The claim does not hold of the code: a branch that fails does not put
  \<open>pktptr\<close> back to the end of the preamble. After the first test call, a call on line 1,
  the packet \<open>overlap_packet\<close> is in the grammar of no branch: it has \<open>''I S ''\<close> and a
  duration, and then \<open>''I E 0123''\<close> in the place of the class of the call. The call start
  branch fails on it with \<open>pktptr\<close> at 32, the call end branch matches from there, where
  from 24 it fails, and the packet sets the duration of the call to 123 seconds and is
  not counted as a bad packet.
\<close>

theorem overlap_packet_taken_as_call_end:
  "\<exists>s1 r1 r3 r4 s2.
      loop_packet test_call_1 power_on = Some s1
    \<and> num_calls s1 = 1 \<and> rec_seconds (calls s1 ! 0) = 0 \<and> badpacket_count s1 = 0
    \<and> bad_preamble (received overlap_packet s1) = Some (False, r1) \<and> pktptr r1 = 24
    \<and> start_call r1 = Some (False, r3) \<and> pktptr r3 = 32
    \<and> end_call r3 = Some (True, r4)
    \<and> end_call (r3\<lparr>pktptr := 24\<rparr>) = Some (False, r3\<lparr>pktptr := 24\<rparr>)
    \<and> select_branch (received overlap_packet s1) = Some (End_call, r4)
    \<and> loop_packet overlap_packet s1 = Some s2
    \<and> loop_packets [test_call_1, overlap_packet] power_on = Some s2
    \<and> rec_seconds (calls s2 ! 0) = 123 \<and> badpacket_count s2 = 0"
proof -
  from first_call_stored obtain s1 where
    s1: "loop_packet test_call_1 power_on = Some s1" "state_ok s1"
      "num_calls s1 = 1" "newest s1 = 0"
      "rec_phoneline (calls s1 ! 0) = 0" "rec_seconds (calls s1 ! 0) = 0"
      "phoneline s1 = ''01'' @ [NUL]" "duration s1 = ''0000'' @ [NUL]"
      "badpacket_count s1 = 0"
    by blast
  have l: "length ''123456'' = 6" "length ''01'' = 2" "length ''0000'' = 4" "length ''0123'' = 4"
    by simp_all
  have n: "70 \<le> length overlap_packet" "length overlap_packet \<le> 83"
    by (simp_all add: overlap_packet_def start_end_packet_def)
  from start_end_trace [OF s1(2) l(1) l(1) l(2) l(3) l(4) n [unfolded overlap_packet_def],
      folded overlap_packet_def]
  obtain r1 r3 r4 where
    tr: "bad_preamble (received overlap_packet s1) = Some (False, r1)"
      "pktptr r1 = 24" "boot_notice r1 = Some (False, r1)"
      "start_call r1 = Some (False, r3)" "pktptr r3 = 32"
      "end_call r3 = Some (True, r4)"
      "end_call (r3\<lparr>pktptr := 24\<rparr>) = Some (False, r3\<lparr>pktptr := 24\<rparr>)"
      "select_branch (received overlap_packet s1) = Some (End_call, r4)"
      "duration r4 = ''0123'' @ drop 4 (duration s1)"
      "phoneline r4 = ''01'' @ drop 2 (phoneline s1)"
      "same_store (received overlap_packet s1) r4"
    by blast
  from tr(11) have fr: "calls r4 = calls s1" "num_calls r4 = 1" "newest r4 = 0"
    "oldest r4 = oldest s1" "badpacket_count r4 = 0"
    by (simp_all add: same_store_def received_facts s1)
       (simp add: received_def read_packet_def Let_def s1)
  from s1(2) have "calls_ok s1" and lc: "length (calls s1) = 200"
    by (simp_all add: state_ok_def calls_ok_def MAX_CALLS_def)
  then have c4: "calls_ok r4"
    using fr s1 by (simp add: calls_ok_def)
  have d4: "sscanf_d (duration r4) = Some 123"
    by (simp add: tr(9) s1 sscanf_d_def c_str_def scan_int_def isdigit_def
        isspace_def NUL_def)
  have p4: "parse_phoneline r4 = 0"
    by (simp add: parse_phoneline_def tr(10) s1 line_index_def sscanf_d_def c_str_def
        scan_int_def isdigit_def isspace_def NUL_def MAX_LINES_def)
  have n4: "0 < num_calls r4"
    by (simp add: fr)
  have rc: "recency r4 = [0]"
    by (simp add: recency_def fr)
  have ud: "update_duration r4 = Some (set_seconds 0 123 r4)"
    using update_duration_scan [OF c4 n4 d4] by (simp add: rc p4 fr s1)
  have ne: "overlap_packet \<noteq> []"
    using n by auto
  have lp: "loop_packet overlap_packet s1 = Some (set_seconds 0 123 r4)"
    using ne tr(8) ud
    by (simp add: loop_packet_def read_packet_def process_packet_def run_branch_def Let_def
        MAX_PACKET_def)
  have r: "rec_seconds (calls (set_seconds 0 123 r4) ! 0) = 123"
    "badpacket_count (set_seconds 0 123 r4) = 0"
    using lc by (simp_all add: set_seconds_def fr)
  have "loop_packets [test_call_1, overlap_packet] power_on = Some (set_seconds 0 123 r4)"
    by (simp add: s1(1) lp)
  with s1 tr lp r show ?thesis
    by blast
qed

theorem call_end_unparsed_seconds_dropped_witness:
  "state_ok power_on \<and> drop 4 (duration power_on) = [NUL] \<and> sscanf_d (''abcd'' @ [NUL]) = None
   \<and> 70 \<le> length bad_seconds_packet \<and> length bad_seconds_packet \<le> 83
   \<and> (\<exists>s1. select_branch (received bad_seconds_packet power_on) = Some (End_call, s1)
         \<and> loop_packet bad_seconds_packet power_on = Some s1
         \<and> badpacket_count s1 = badpacket_count power_on)"
proof -
  have l: "length ''123456'' = 6" "length ''01'' = 2" "length ''abcd'' = 4"
    by simp_all
  have n: "70 \<le> length bad_seconds_packet" "length bad_seconds_packet \<le> 83"
    by (simp_all add: bad_seconds_packet_def call_end_packet_def)
  have z: "drop 4 (duration power_on) = [NUL]"
    by (simp add: power_on_def)
  have np: "sscanf_d (''abcd'' @ [NUL]) = None"
    by (simp add: sscanf_d_def c_str_def scan_int_def isdigit_def isspace_def NUL_def)
  from call_end_unparsed_seconds_dropped [OF state_ok_power_on z l(1) l(1) l(2) l(3)
      n [unfolded bad_seconds_packet_def] np, folded bad_seconds_packet_def]
  have "\<exists>s1. select_branch (received bad_seconds_packet power_on) = Some (End_call, s1)
         \<and> loop_packet bad_seconds_packet power_on = Some s1
         \<and> badpacket_count s1 = badpacket_count power_on"
    by blast
  with state_ok_power_on z np n show ?thesis by blast
qed

theorem unparsed_seconds_counterexample:
  "\<exists>s'. branch_of (received bad_seconds_packet power_on) = Some End_call
      \<and> loop_packet bad_seconds_packet power_on = Some s'
      \<and> take 4 (duration s') = ''abcd'' \<and> sscanf_d (duration s') = None
      \<and> badpacket_count s' = 0 \<and> badpacket_type s' \<noteq> 2"
proof -
  have l: "length ''123456'' = 6" "length ''01'' = 2" "length ''abcd'' = 4"
    by simp_all
  have n: "70 \<le> length bad_seconds_packet" "length bad_seconds_packet \<le> 83"
    by (simp_all add: bad_seconds_packet_def call_end_packet_def)
  define s1 where "s1 = (received bad_seconds_packet power_on)
        \<lparr>pktptr := 32, unitnum := ''123456'' @ drop 6 (unitnum power_on),
          serialnum := ''123456'' @ drop 6 (serialnum power_on),
          phoneline := ''01'' @ drop 2 (phoneline power_on),
          duration := ''abcd'' @ drop 4 (duration power_on)\<rparr>"
  have sb: "select_branch (received bad_seconds_packet power_on) = Some (End_call, s1)"
    unfolding s1_def
    using call_end_decoded [OF state_ok_power_on l(1) l(1) l(2) l(3)
      n [unfolded bad_seconds_packet_def], folded bad_seconds_packet_def] .
  have d: "duration s1 = ''abcd'' @ [NUL]"
    by (simp add: s1_def power_on_def)
  have np: "sscanf_d (duration s1) = None"
    unfolding d by (simp add: sscanf_d_def c_str_def scan_int_def isdigit_def isspace_def NUL_def)
  then have "update_duration s1 = Some s1"
    by (simp add: update_duration_def)
  moreover from n have "bad_seconds_packet \<noteq> []" by auto
  ultimately have lp: "loop_packet bad_seconds_packet power_on = Some s1"
    using sb
    by (simp add: loop_packet_def read_packet_def process_packet_def run_branch_def Let_def
        MAX_PACKET_def)
  have b: "badpacket_count s1 = 0" "badpacket_type s1 \<noteq> 2"
    by (simp_all add: s1_def received_def read_packet_def Let_def power_on_def)
  have "branch_of (received bad_seconds_packet power_on) = Some End_call"
    using sb by (simp add: branch_of_def)
  with lp d np b show ?thesis by simp
qed

subsection \<open>The input of a string\<close>

lemma line_end_not_backspace: "backspace ch \<Longrightarrow> \<not> line_end ch"
  by (auto simp add: backspace_def line_end_def)

lemma wait_serial:
  "edit Wait len (map Rx typed @ Rx term # rest) c
     = edit Choose len (map Rx typed @ Rx term # rest) c"
  by (cases typed) simp_all

lemma edit_typed:
  assumes "\<forall>ch\<in>set typed. \<not> line_end ch \<and> \<not> backspace ch" "line_end term"
    and "input_col c = int j" "j + length typed < len" "len \<le> length (dst c)"
  shows "edit Choose len (map Rx typed @ Rx term # rest) c
     = Some (c\<lparr>dst := take j (dst c) @ typed @ drop (j + length typed) (dst c),
               input_col := int (j + length typed)\<rparr>)"
  using assms
proof (induction typed arbitrary: c j)
  case Nil
  then show ?case by simp
next
  case (Cons ch t)
  let ?c1 = "c\<lparr>dst := (dst c)[j := ch]\<rparr>"
  let ?c2 = "?c1\<lparr>input_col := int j + 1\<rparr>"
  from Cons.prems have jl: "j < length (dst c)" and nl: "\<not> line_end ch" and nb: "\<not> backspace ch"
    by simp_all
  have sc: "serial_char ch c = Some ?c1"
    using nb jl Cons.prems(3) by (simp add: serial_char_def poke_def in_bounds_def)
  have nlast: "\<not> int len \<le> int (Suc j)"
    using Cons.prems(4) by simp
  have step: "edit Choose len (map Rx (ch # t) @ Rx term # rest) c
      = edit Choose len (map Rx t @ Rx term # rest) ?c2"
    using nl sc nlast Cons.prems(3)
    by (simp add: Let_def wait_serial del: edit.simps(8))
  have ih: "edit Choose len (map Rx t @ Rx term # rest) ?c2
      = Some (?c2\<lparr>dst := take (Suc j) (dst ?c2) @ t @ drop (Suc j + length t) (dst ?c2),
               input_col := int (Suc j + length t)\<rparr>)"
    using Cons.prems by (intro Cons.IH) simp_all
  have d: "take (Suc j) ((dst c)[j := ch]) @ t @ drop (Suc j + length t) ((dst c)[j := ch])
      = take j (dst c) @ (ch # t) @ drop (j + length (ch # t)) (dst c)"
    using jl by (simp add: take_Suc_conv_app_nth)
  show ?case
    unfolding step ih using d by simp
qed

lemma start_edit_typed:
  assumes "\<forall>ch\<in>set typed. \<not> line_end ch \<and> \<not> backspace ch" "line_end term"
    and "1 \<le> length typed" "length typed < len" "len \<le> length (dst c)"
  shows "start_edit len (map Rx typed @ Rx term # rest) c
     = Some (c\<lparr>dst := typed @ replicate (len - length typed) NUL @ drop len (dst c),
               input_col := int (length typed), glyph := 0\<rparr>)"
proof -
  let ?c0 = "c\<lparr>dst := replicate len NUL @ drop len (dst c), input_col := 0, glyph := - 1\<rparr>"
  let ?c1 = "?c0\<lparr>glyph := 0, dst := (dst ?c0)[0 := CHR ''A'']\<rparr>"
  from assms(3,4,5) have pos: "0 < len" "dst c \<noteq> []"
    by auto
  have sg: "set_glyph ?c0 = Some ?c1"
    using pos
    by (simp add: set_glyph_def next_glyph_def unsigned_int_def poke_def in_bounds_def Let_def alphabet_def)
  have "edit Choose len (map Rx typed @ Rx term # rest) ?c1
     = Some (?c1\<lparr>dst := take 0 (dst ?c1) @ typed @ drop (0 + length typed) (dst ?c1),
               input_col := int (0 + length typed)\<rparr>)"
    using assms by (intro edit_typed) simp_all
  moreover have "drop (length typed) ((replicate len NUL @ drop len (dst c))[0 := CHR ''A''])
     = drop (length typed) (replicate len NUL @ drop len (dst c))"
    using assms(3) by (intro drop_update_cancel) auto
  then have "drop (length typed) ((replicate len NUL @ drop len (dst c))[0 := CHR ''A''])
     = replicate (len - length typed) NUL @ drop len (dst c)"
    using assms(4) by simp
  ultimately show ?thesis
    using sg assms(5) by (simp add: start_edit_def)
qed

text \<open>
  Claim C9, as amended. In an edit of a string of at most \<open>len\<close> bytes, in an array that
  holds them, \<open>k\<close> bytes from the serial port with \<open>1 \<le> k < len\<close>, none of them a line
  end or a backspace, and then a line end: the edit ends at the line end, and the string is
  the \<open>k\<close> bytes in their order with zero bytes from \<open>k\<close> to \<open>len - 1\<close>. (With no byte
  before the line end the array keeps its old string, or holds the first glyph where it
  had none.)
\<close>

theorem input_string_typed:
  assumes "\<forall>ch\<in>set typed. \<not> line_end ch \<and> \<not> backspace ch" "line_end term"
    and "1 \<le> length typed" "length typed < len" "len \<le> length (dst c)"
  shows "\<exists>c'. input_string len (map Rx typed @ Rx term # rest) c = Some c'
     \<and> dst c' = typed @ replicate (len - length typed) NUL @ drop len (dst c)
     \<and> take len (dst c') = typed @ replicate (len - length typed) NUL
     \<and> input_col c' = int (length typed)"
proof -
  from assms(3) obtain ch t where t: "typed = ch # t"
    by (cases typed) auto
  with assms(1) have nl: "\<not> line_end ch" by simp
  have "input_string len (map Rx typed @ Rx term # rest) c
      = start_edit len (map Rx typed @ Rx term # rest) c"
    using nl by (simp add: input_string_def t)
  also note start_edit_typed [OF assms]
  finally show ?thesis
    using assms(4) by simp
qed

theorem input_string_typed_witness:
  "\<exists>c'. input_string 15 [Rx CHR ''B'', Rx CHR ''o'', Rx CHR ''b'', Rx CHR 0x0D] blank_name = Some c'
     \<and> dst c' = ''Bob'' @ replicate 13 NUL"
proof -
  have r: "replicate 13 NUL = NUL # replicate 12 NUL"
    by (simp add: numeral_eq_Suc)
  from input_string_typed [of "''Bob''" "CHR 0x0D" 15 blank_name "[]"]
  show ?thesis
    by (auto simp add: line_end_def backspace_def blank_name_def replicate_append_same r)
qed

theorem line_end_only_counterexample:
  "(\<exists>c'. input_string 15 [Rx CHR 0x0D] blank_name = Some c'
       \<and> dst c' = CHR ''A'' # replicate 15 NUL)
   \<and> input_string 15 [Rx CHR 0x0D] first_column = Some first_column"
proof -
  have r: "replicate 16 NUL = NUL # replicate 15 NUL"
    by (simp add: numeral_eq_Suc)
  have "CHR ''A'' \<noteq> NUL"
    by (simp add: NUL_def)
  then show ?thesis
    by (simp add: input_string_def start_edit_def set_glyph_def next_glyph_def unsigned_int_def poke_def
        in_bounds_def Let_def alphabet_def line_end_def blank_name_def first_column_def r
        replicate_append_same)
qed

text \<open>
  Claim C10, as amended. A backspace from the serial port in column 0 stores a zero byte
  in \<open>dst[0]\<close>, over the character that the column shows, and leaves the other bytes;
  \<open>input_col\<close> goes to \<open>-1\<close> and the increment that ends the column brings it back
  to 0, where the code waits for the next input.
\<close>

theorem backspace_at_column_0:
  assumes "backspace ch" "input_col c = 0" "dst c \<noteq> []" "0 < len"
  shows "serial_char ch c = Some (c\<lparr>dst := (dst c)[0 := NUL], input_col := - 1\<rparr>)
     \<and> edit Choose len (Rx ch # ins) c = edit Wait len ins (c\<lparr>dst := (dst c)[0 := NUL], input_col := 0\<rparr>)"
proof -
  have sc: "serial_char ch c = Some (c\<lparr>dst := (dst c)[0 := NUL], input_col := - 1\<rparr>)"
    using assms by (simp add: serial_char_def poke_def in_bounds_def)
  moreover have "edit Choose len (Rx ch # ins) c
      = edit Wait len ins (c\<lparr>dst := (dst c)[0 := NUL], input_col := 0\<rparr>)"
    using assms(4) line_end_not_backspace [OF assms(1)] by (simp add: sc Let_def)
  ultimately show ?thesis by simp
qed

theorem backspace_at_column_0_witness:
  "serial_char (CHR 0x08) first_column = Some (first_column\<lparr>dst := replicate 16 NUL, input_col := - 1\<rparr>)
   \<and> edit Choose 15 [Rx (CHR 0x08), Accept] first_column
       = edit Wait 15 [Accept] (first_column\<lparr>dst := replicate 16 NUL, input_col := 0\<rparr>)"
proof -
  have r: "replicate 16 NUL = NUL # replicate 15 NUL"
    by (simp add: numeral_eq_Suc)
  have "(dst first_column)[0 := NUL] = replicate 16 NUL" "input_col first_column = 0"
    "dst first_column \<noteq> []"
    by (simp_all add: first_column_def r)
  with backspace_at_column_0 [of "CHR 0x08" first_column 15 "[Accept]"]
  show ?thesis by (simp add: backspace_def)
qed

theorem backspace_erases_counterexample:
  "start_edit 15 [Accept, Accept] blank_name = Some (first_column\<lparr>input_col := 1\<rparr>)
   \<and> start_edit 15 [Rx (CHR 0x08), Accept] blank_name = Some blank_name
   \<and> (\<exists>c'. serial_char (CHR 0x08) first_column = Some c'
        \<and> dst c' \<noteq> dst first_column \<and> input_col c' = - 1)"
proof -
  have r: "replicate 16 NUL = NUL # replicate 15 NUL"
    by (simp add: numeral_eq_Suc)
  have "CHR ''A'' \<noteq> NUL"
    by (simp add: NUL_def)
  then show ?thesis
    by (simp add: start_edit_def set_glyph_def next_glyph_def unsigned_int_def poke_def serial_char_def
        backspace_def line_end_def in_bounds_def Let_def alphabet_def blank_name_def
        first_column_def r replicate_append_same)
qed

end
